theory Spec2Isabelle
  imports Complex_Main "HOL-Library.Sublist"
begin

section \<open>The rotation map of Inovesa (src/HM/RotationMap.cpp)\<close>

text \<open>
  The mesh types \<^verbatim>\<open>meshaxis_t\<close>, \<^verbatim>\<open>interpol_t\<close> and \<^verbatim>\<open>meshdata_t\<close> are floating-point
  types chosen in a header; they are modelled by \<^typ>\<open>real\<close>, that is with exact
  arithmetic. Grid sizes, loop counters and source indices are \<^verbatim>\<open>unsigned int\<close>; they
  are modelled by \<^typ>\<open>nat\<close>, and where the code can leave the range of 32 bits
  (the stencil offsets, the flattened index, the conversion of a coordinate) the
  reduction modulo \<open>2 ^ 32\<close> is written out.
\<close>

subsection \<open>Data\<close>

text \<open>A stencil entry \<^verbatim>\<open>hi\<close>: the index of a source cell and its weight.\<close>

record hi =
  index :: nat
  weight :: real

text \<open>
  The state of a \<^verbatim>\<open>HeritageMap\<close> object that the code of \<^verbatim>\<open>RotationMap\<close> uses:
  the grid sizes, the number \<^verbatim>\<open>_ip\<close> of entries of a row and the stencil table itself.
  The table is one flat buffer: \<^verbatim>\<open>_heritage_map[q][p][k]\<close> and \<^verbatim>\<open>_heritage_map1D[i][j]\<close>
  are two views of it.
\<close>

record heritage_map =
  xsize :: nat
  ysize :: nat
  ip :: nat
  hinfo :: "hi list"

definition hm_size :: "heritage_map \<Rightarrow> nat" where
  "hm_size hm = xsize hm * ysize hm"

text \<open>
  Modelled from the spec: the layout of the stencil table (class \<^verbatim>\<open>HeritageMap\<close> is not
  part of the sources at hand). The table is flattened with the entries of a row
  contiguous, rows in the row-major order of the grid: \<open>pos3D ys n q p k\<close> is the place
  of \<^verbatim>\<open>_heritage_map[q][p][k]\<close> and \<open>pos1D n i j\<close> that of \<^verbatim>\<open>_heritage_map1D[i][j]\<close>,
  for rows of \<open>n\<close> entries.
\<close>

definition pos3D :: "nat \<Rightarrow> nat \<Rightarrow> nat \<Rightarrow> nat \<Rightarrow> nat \<Rightarrow> nat" where
  "pos3D ys n q p k = (q * ys + p) * n + k"

definition pos1D :: "nat \<Rightarrow> nat \<Rightarrow> nat \<Rightarrow> nat" where
  "pos1D n i j = i * n + j"

text \<open>
  Modelled from the spec: the constructor of the base class \<^verbatim>\<open>HeritageMap\<close>, which is
  not part of the sources at hand. It fixes the sizes and leaves every entry of the
  table as the zero sentinel \<open>{0, 0}\<close>.
\<close>

definition zero_hi :: hi where
  "zero_hi = \<lparr>index = 0, weight = 0\<rparr>"

definition HeritageMap :: "nat \<Rightarrow> nat \<Rightarrow> nat \<Rightarrow> heritage_map" where
  "HeritageMap xs ys interpoints =
     \<lparr>xsize = xs, ysize = ys, ip = interpoints,
      hinfo = replicate (xs * ys * interpoints) zero_hi\<rparr>"

subsection \<open>Machine arithmetic\<close>

text \<open>
  \<^verbatim>\<open>std::modf\<close>: the integral part is the argument rounded towards zero, the result is
  the rest, which has the sign of the argument.
\<close>

definition trunc :: "real \<Rightarrow> int" where
  "trunc x = (if 0 \<le> x then \<lfloor>x\<rfloor> else \<lceil>x\<rceil>)"

definition modf :: "real \<Rightarrow> real \<times> int" where
  "modf x = (x - of_int (trunc x), trunc x)"

text \<open>
  The conversion of the integral part to \<^verbatim>\<open>unsigned int\<close>. Inside \<open>[0, 2 ^ 32)\<close> it is
  exact. Outside, C++ leaves it undefined; the model takes the reduction modulo
  \<open>2 ^ 32\<close>, which is what the conversion through a 64-bit integer gives.
\<close>

definition to_uint :: "int \<Rightarrow> nat" where
  "to_uint z = nat (z mod 2 ^ 32)"

text \<open>Unsigned \<^verbatim>\<open>id + i1 - (INTERPOL_TYPE-1)/2\<close>.\<close>

definition stencil_cell :: "nat \<Rightarrow> nat \<Rightarrow> nat \<Rightarrow> nat" where
  "stencil_cell IT d a = nat ((int d + int a - int ((IT - 1) div 2)) mod 2 ^ 32)"

text \<open>Division of \<^verbatim>\<open>int\<close> in C++ rounds towards zero.\<close>

definition tdiv :: "int \<Rightarrow> int \<Rightarrow> int" where
  "tdiv a b = sgn a * sgn b * (\<bar>a\<bar> div \<bar>b\<bar>)"

subsection \<open>The constructor: building the table\<close>

text \<open>
  The three ways to compute the source coordinates, selected by the macro
  \<^verbatim>\<open>ROTATION_TYPE\<close>. The result is the pair \<^verbatim>\<open>(qcoord, pcoord)\<close>.
\<close>

datatype rotation_type = RT1 | RT2 | RT3

definition rot_coords ::
  "rotation_type \<Rightarrow> nat \<Rightarrow> nat \<Rightarrow> real \<Rightarrow> real \<Rightarrow> nat \<Rightarrow> nat \<Rightarrow> real \<times> real" where
  "rot_coords rt xs ys cos_dt sin_dt q_i p_i =
     (case rt of
        RT1 \<Rightarrow>
          (let qp = cos_dt * (real q_i - real xs / 2)
                    - sin_dt * (real p_i - real ys / 2) + real xs / 2;
               pp = sin_dt * (real q_i - real xs / 2)
                    + cos_dt * (real p_i - real ys / 2) + real ys / 2
           in (qp, pp))
      | RT2 \<Rightarrow>
          (let qp = cos_dt * ((real q_i - real xs / 2) / real xs)
                    - sin_dt * ((real p_i - real ys / 2) / real ys);
               pp = sin_dt * ((real q_i - real xs / 2) / real xs)
                    + cos_dt * ((real p_i - real ys / 2) / real ys)
           in ((qp + 1 / 2) * real xs, (pp + 1 / 2) * real ys))
      | RT3 \<Rightarrow>
          (let qp = cos_dt * of_int (tdiv (2 * int q_i - int xs) (int xs))
                    - sin_dt * of_int (tdiv (2 * int p_i - int ys) (int ys));
               pp = sin_dt * of_int (tdiv (2 * int q_i - int xs) (int xs))
                    + cos_dt * of_int (tdiv (2 * int p_i - int ys) (int ys))
           in ((qp + 1) * real xs / 2, (pp + 1) * real ys / 2)))"

text \<open>
  The interpolation coefficients for one axis, selected by the macro
  \<^verbatim>\<open>INTERPOL_TYPE\<close>. For a value other than 1, 2, 3, 4 no branch of the \<^verbatim>\<open>#if\<close> chain
  is compiled and the coefficients stay uninitialised: the model has no value then.
\<close>

definition icoeff :: "nat \<Rightarrow> real \<Rightarrow> real list option" where
  "icoeff IT xi =
     (if IT = 1 then Some [1]
      else if IT = 2 then Some [1 - xi, xi]
      else if IT = 3 then
        Some [xi * (xi - 1) / 2,
              1 - xi * xi,
              xi * (xi + 1) / 2]
      else if IT = 4 then
        Some [(xi - 1) * (xi - 2) * xi * (- 1 / 6),
              (xi + 1) * (xi - 1) * (xi - 2) / 2,
              (2 - xi) * xi * (xi + 1) / 2,
              xi * (xi + 1) * (xi - 1) * (1 / 6)]
      else None)"

text \<open>
  The assembly loop: \<^verbatim>\<open>hmc[hmp*INTERPOL_TYPE+hmq] = icq[hmp]*icp[hmq]\<close>, with \<^verbatim>\<open>hmq\<close>
  in the outer loop and \<^verbatim>\<open>hmp\<close> in the inner one. The array starts uninitialised; the
  model starts from the list it is given.
\<close>

definition assemble :: "nat \<Rightarrow> real list \<Rightarrow> real list \<Rightarrow> real list \<Rightarrow> real list" where
  "assemble IT icq icp hmc0 =
     fold (\<lambda>hmq. fold (\<lambda>hmp hmc. hmc[hmp * IT + hmq := icq ! hmp * icp ! hmq]) [0..<IT])
       [0..<IT] hmc0"

text \<open>
  The entry \<^verbatim>\<open>ph[i1][j1]\<close> written for the source cell \<open>(id, jd)\<close> of a target.
\<close>

definition ph :: "nat \<Rightarrow> nat \<Rightarrow> nat \<Rightarrow> real list \<Rightarrow> nat \<Rightarrow> nat \<Rightarrow> nat \<Rightarrow> nat \<Rightarrow> hi" where
  "ph IT xs ys hmc idq jd i1 j1 =
     (let j0 = stencil_cell IT jd j1;
          i0 = stencil_cell IT idq i1
      in if i0 < xs \<and> j0 < ys
         then \<lparr>index = (i0 * ys + j0) mod 2 ^ 32, weight = hmc ! (i1 * IT + j1)\<rparr>
         else zero_hi)"

text \<open>
  The loop that writes the row of the target \<open>(q_i, p_i)\<close> into the table \<open>tab\<close>:
  \<^verbatim>\<open>j1\<close> in the outer loop, \<^verbatim>\<open>i1\<close> in the inner one.
\<close>

definition write_row ::
  "nat \<Rightarrow> nat \<Rightarrow> nat \<Rightarrow> real list \<Rightarrow> nat \<Rightarrow> nat \<Rightarrow> nat \<Rightarrow> nat \<Rightarrow> hi list \<Rightarrow> hi list" where
  "write_row IT xs ys hmc idq jd q_i p_i tab =
     fold (\<lambda>j1. fold (\<lambda>i1 t.
             t[pos3D ys (IT * IT) q_i p_i (i1 * IT + j1) := ph IT xs ys hmc idq jd i1 j1])
           [0..<IT])
       [0..<IT] tab"

text \<open>
  The body of the two outer loops, for one target \<open>(q_i, p_i)\<close>. The result is \<open>None\<close>
  when \<^verbatim>\<open>INTERPOL_TYPE\<close> is not one of 1, 2, 3, 4.
\<close>

definition build_cell ::
  "rotation_type \<Rightarrow> nat \<Rightarrow> nat \<Rightarrow> nat \<Rightarrow> real \<Rightarrow> real \<Rightarrow> nat \<Rightarrow> nat \<Rightarrow>
   hi list \<Rightarrow> hi list option" where
  "build_cell rt IT xs ys cos_dt sin_dt q_i p_i tab =
     (let (qcoord, pcoord) = rot_coords rt xs ys cos_dt sin_dt q_i p_i;
          (xiq, qq_int) = modf qcoord;
          (xip, qp_int) = modf pcoord;
          idq = to_uint qq_int;
          jd = to_uint qp_int
      in if idq < xs \<and> jd < ys
         then (case icoeff IT xiq of
                 None \<Rightarrow> None
               | Some icq \<Rightarrow>
                   (case icoeff IT xip of
                      None \<Rightarrow> None
                    | Some icp \<Rightarrow>
                        Some (write_row IT xs ys (assemble IT icq icp (replicate (IT * IT) 0))
                                idq jd q_i p_i tab)))
         else Some tab)"

definition build_step ::
  "rotation_type \<Rightarrow> nat \<Rightarrow> nat \<Rightarrow> nat \<Rightarrow> real \<Rightarrow> real \<Rightarrow> nat \<Rightarrow> nat \<Rightarrow>
   hi list option \<Rightarrow> hi list option" where
  "build_step rt IT xs ys cos_dt sin_dt q_i p_i s =
     (case s of None \<Rightarrow> None | Some tab \<Rightarrow> build_cell rt IT xs ys cos_dt sin_dt q_i p_i tab)"

text \<open>
  The two loops over \<^verbatim>\<open>q_i\<close> and \<^verbatim>\<open>p_i\<close>, from the table that the constructor of the
  base class has left.
\<close>

definition build_loops ::
  "rotation_type \<Rightarrow> nat \<Rightarrow> nat \<Rightarrow> nat \<Rightarrow> real \<Rightarrow> real \<Rightarrow> hi list \<Rightarrow> hi list option" where
  "build_loops rt IT xs ys cos_dt sin_dt tab0 =
     fold (\<lambda>q_i. fold (\<lambda>p_i. build_step rt IT xs ys cos_dt sin_dt q_i p_i) [0..<ys])
       [0..<xs] (Some tab0)"

text \<open>
  The constructor, for given values of the cosine and of the negated sine: the base
  class is constructed with \<^verbatim>\<open>INTERPOL_TYPE*INTERPOL_TYPE\<close> entries per row, then the
  loops run.
\<close>

definition build_map ::
  "rotation_type \<Rightarrow> nat \<Rightarrow> nat \<Rightarrow> nat \<Rightarrow> real \<Rightarrow> real \<Rightarrow> heritage_map option" where
  "build_map rt IT xs ys cos_dt sin_dt =
     (let hm0 = HeritageMap xs ys (IT * IT)
      in case build_loops rt IT xs ys cos_dt sin_dt (hinfo hm0) of
           None \<Rightarrow> None
         | Some tab \<Rightarrow> Some (hm0\<lparr>hinfo := tab\<rparr>))"

text \<open>\<^verbatim>\<open>RotationMap::RotationMap\<close>, without the OpenCL part.\<close>

definition RotationMap ::
  "rotation_type \<Rightarrow> nat \<Rightarrow> nat \<Rightarrow> nat \<Rightarrow> real \<Rightarrow> heritage_map option" where
  "RotationMap rt IT xs ys angle = build_map rt IT xs ys (cos angle) (- sin angle)"

subsection \<open>The sequential apply\<close>

text \<open>
  Reading a buffer outside its bounds is undefined in C++; the model has no value
  (\<open>None\<close>) then.
\<close>

definition rd :: "'a list \<Rightarrow> nat \<Rightarrow> 'a option" where
  "rd xs k = (if k < length xs then Some (xs ! k) else None)"

text \<open>\<^verbatim>\<open>data_in[_heritage_map1D[i][j].index]\<close>.\<close>

definition src_val :: "heritage_map \<Rightarrow> real list \<Rightarrow> nat \<Rightarrow> nat \<Rightarrow> real option" where
  "src_val hm data_in i j =
     (case rd (hinfo hm) (pos1D (ip hm) i j) of
        None \<Rightarrow> None
      | Some h \<Rightarrow> rd data_in (index h))"

text \<open>
  One step of the inner loop:
  \<^verbatim>\<open>hi h = _heritage_map1D[i][j]; data_out[i] += data_in[h.index]*h.weight\<close>.
\<close>

definition acc_step :: "heritage_map \<Rightarrow> real list \<Rightarrow> nat \<Rightarrow> nat \<Rightarrow> real option \<Rightarrow> real option" where
  "acc_step hm data_in i j s =
     (case s of
        None \<Rightarrow> None
      | Some acc \<Rightarrow>
          (case rd (hinfo hm) (pos1D (ip hm) i j) of
             None \<Rightarrow> None
           | Some h \<Rightarrow>
               (case rd data_in (index h) of
                  None \<Rightarrow> None
                | Some x \<Rightarrow> Some (acc + x * weight h))))"

definition accumulate :: "heritage_map \<Rightarrow> real list \<Rightarrow> nat \<Rightarrow> real option" where
  "accumulate hm data_in i = fold (acc_step hm data_in i) [0..<ip hm] (Some 0)"

text \<open>
  The block compiled for \<^verbatim>\<open>INTERPOL_SATURATING == 1\<close>. The start values
  \<^verbatim>\<open>std::numeric_limits<meshdata_t>::min()\<close> and \<^verbatim>\<open>max()\<close> depend on the type
  \<^verbatim>\<open>meshdata_t\<close>; they are the parameters \<open>lmin\<close> and \<open>lmax\<close>. The state of the loop
  is the pair \<^verbatim>\<open>(ceil, flor)\<close>.
\<close>

definition sat_step ::
  "nat \<Rightarrow> heritage_map \<Rightarrow> real list \<Rightarrow> nat \<Rightarrow> nat \<Rightarrow> nat \<Rightarrow>
   (real \<times> real) option \<Rightarrow> (real \<times> real) option" where
  "sat_step IT hm data_in i x y s =
     (case s of
        None \<Rightarrow> None
      | Some (ceil, flor) \<Rightarrow>
          (case src_val hm data_in i (x * IT + y) of
             None \<Rightarrow> None
           | Some v \<Rightarrow> Some (max ceil v, min flor v)))"

definition sat_bounds ::
  "nat \<Rightarrow> real \<Rightarrow> real \<Rightarrow> heritage_map \<Rightarrow> real list \<Rightarrow> nat \<Rightarrow> (real \<times> real) option" where
  "sat_bounds IT lmin lmax hm data_in i =
     fold (\<lambda>x. fold (\<lambda>y. sat_step IT hm data_in i x y) [1..<3]) [1..<3] (Some (lmin, lmax))"

text \<open>
  The configuration of \<^verbatim>\<open>apply\<close> fixed at compile time: \<^verbatim>\<open>INTERPOL_TYPE\<close>, whether
  \<^verbatim>\<open>INTERPOL_SATURATING\<close> is 1, and the two limits of \<^verbatim>\<open>meshdata_t\<close>.
\<close>

record config =
  interpol_type :: nat
  saturating :: bool
  limit_min :: real
  limit_max :: real

text \<open>The value that \<^verbatim>\<open>apply\<close> leaves in \<^verbatim>\<open>data_out[i]\<close>.\<close>

definition apply_cell :: "config \<Rightarrow> heritage_map \<Rightarrow> real list \<Rightarrow> nat \<Rightarrow> real option" where
  "apply_cell cfg hm data_in i =
     (case accumulate hm data_in i of
        None \<Rightarrow> None
      | Some s \<Rightarrow>
          if saturating cfg
          then (case sat_bounds (interpol_type cfg) (limit_min cfg) (limit_max cfg) hm data_in i of
                  None \<Rightarrow> None
                | Some (ceil, flor) \<Rightarrow> Some (max (min ceil s) flor))
          else Some s)"

definition apply_step ::
  "config \<Rightarrow> heritage_map \<Rightarrow> real list \<Rightarrow> nat \<Rightarrow> real list option \<Rightarrow> real list option" where
  "apply_step cfg hm data_in i s =
     (case s of
        None \<Rightarrow> None
      | Some data_out \<Rightarrow>
          (case apply_cell cfg hm data_in i of
             None \<Rightarrow> None
           | Some v \<Rightarrow> if i < length data_out then Some (data_out[i := v]) else None))"

text \<open>
  \<^verbatim>\<open>RotationMap::apply\<close>, the path compiled without OpenCL. The two buffers are those
  of two different \<^verbatim>\<open>PhaseSpace\<close> objects; the result is the new content of the output
  buffer. (The name \<open>apply\<close> is a keyword of Isabelle, hence \<open>apply_map\<close>.)
\<close>

definition apply_map :: "config \<Rightarrow> heritage_map \<Rightarrow> real list \<Rightarrow> real list \<Rightarrow> real list option" where
  "apply_map cfg hm data_in data_out =
     fold (apply_step cfg hm data_in) [0..<hm_size hm] (Some data_out)"

subsection \<open>Notions used to state the properties\<close>

text \<open>
  A table fits a grid and an input of \<open>n\<close> samples when it has one row of \<^verbatim>\<open>_ip\<close> entries
  for each cell and every source index is below \<open>n\<close>.
\<close>

definition wf_map :: "heritage_map \<Rightarrow> nat \<Rightarrow> bool" where
  "wf_map hm n \<longleftrightarrow>
     length (hinfo hm) = hm_size hm * ip hm \<and> list_all (\<lambda>h. index h < n) (hinfo hm)"

text \<open>
  The weighted sum of the spec for the target \<open>i\<close>: over the entries \<open>k\<close> of the row,
  the input at the source index of the entry times its weight.
\<close>

definition row_sum :: "heritage_map \<Rightarrow> real list \<Rightarrow> nat \<Rightarrow> real" where
  "row_sum hm data_in i =
     (\<Sum>k<ip hm. data_in ! index (hinfo hm ! pos1D (ip hm) i k)
                  * weight (hinfo hm ! pos1D (ip hm) i k))"

text \<open>
  The source cell \<^verbatim>\<open>(id, jd)\<close> of a target and the two fractional offsets
  \<^verbatim>\<open>(xiq, xip)\<close>, as the constructor computes them.
\<close>

definition src_cell :: "rotation_type \<Rightarrow> nat \<Rightarrow> nat \<Rightarrow> real \<Rightarrow> real \<Rightarrow> nat \<Rightarrow> nat \<Rightarrow> nat \<times> nat" where
  "src_cell rt xs ys cos_dt sin_dt q_i p_i =
     (let (qcoord, pcoord) = rot_coords rt xs ys cos_dt sin_dt q_i p_i
      in (to_uint (trunc qcoord), to_uint (trunc pcoord)))"

definition src_frac :: "rotation_type \<Rightarrow> nat \<Rightarrow> nat \<Rightarrow> real \<Rightarrow> real \<Rightarrow> nat \<Rightarrow> nat \<Rightarrow> real \<times> real" where
  "src_frac rt xs ys cos_dt sin_dt q_i p_i =
     (let (qcoord, pcoord) = rot_coords rt xs ys cos_dt sin_dt q_i p_i
      in (qcoord - of_int (trunc qcoord), pcoord - of_int (trunc pcoord)))"

text \<open>
  The sizes of a grid fit the machine: each below \<open>2 ^ 31\<close>, and less than \<open>2 ^ 32\<close>
  cells, so that \<^verbatim>\<open>_size\<close> and every flattened index are values of \<^verbatim>\<open>unsigned int\<close>.
\<close>

definition grid_ok :: "nat \<Rightarrow> nat \<Rightarrow> bool" where
  "grid_ok xs ys \<longleftrightarrow> xs < 2 ^ 31 \<and> ys < 2 ^ 31 \<and> xs * ys < 2 ^ 32"

definition stencil_weights :: "nat \<Rightarrow> real \<Rightarrow> real \<Rightarrow> real list" where
  "stencil_weights IT xiq xip =
     assemble IT (the (icoeff IT xiq)) (the (icoeff IT xip)) (replicate (IT * IT) 0)"

definition cell_tab ::
  "rotation_type \<Rightarrow> nat \<Rightarrow> nat \<Rightarrow> nat \<Rightarrow> real \<Rightarrow> real \<Rightarrow> nat \<Rightarrow> nat \<Rightarrow> hi list \<Rightarrow> hi list" where
  "cell_tab rt IT xs ys cos_dt sin_dt q_i p_i tab =
     (let (idq, jd) = src_cell rt xs ys cos_dt sin_dt q_i p_i;
          (xiq, xip) = src_frac rt xs ys cos_dt sin_dt q_i p_i
      in if idq < xs \<and> jd < ys
         then write_row IT xs ys (stencil_weights IT xiq xip) idq jd q_i p_i tab
         else tab)"

definition stencil_entry ::
  "nat \<Rightarrow> nat \<Rightarrow> nat \<Rightarrow> real list \<Rightarrow> real list \<Rightarrow> nat \<Rightarrow> nat \<Rightarrow> nat \<Rightarrow> nat \<Rightarrow> hi" where
  "stencil_entry IT xs ys icq icp cq cp a b =
     (let i0 = int cq + int a - int ((IT - 1) div 2);
          j0 = int cp + int b - int ((IT - 1) div 2)
      in if 0 \<le> i0 \<and> i0 < int xs \<and> 0 \<le> j0 \<and> j0 < int ys
         then \<lparr>index = nat i0 * ys + nat j0, weight = icq ! a * icp ! b\<rparr>
         else zero_hi)"

text \<open>
  The Lagrange basis of the spec: the weight of node \<open>j\<close> among the nodes \<open>ns\<close> at the
  point \<open>x\<close>. The nodes of a kernel of \<open>IT\<close> points are the offsets of its cells from
  the source cell.
\<close>

definition nodes :: "nat \<Rightarrow> int list" where
  "nodes IT = map (\<lambda>k. int k - int ((IT - 1) div 2)) [0..<IT]"

definition lagrange :: "int list \<Rightarrow> nat \<Rightarrow> real \<Rightarrow> real" where
  "lagrange ns j x =
     prod_list (map (\<lambda>m. if m = j then 1
                          else (x - of_int (ns ! m)) / (of_int (ns ! j) - of_int (ns ! m)))
                    [0..<length ns])"

text \<open>
  The places of a row that the saturating block reads: \<open>x * INTERPOL_TYPE + y\<close> for
  \<open>x\<close> and \<open>y\<close> in 1, 2, in the order of the loops. For a kernel of four points these
  are the four cells around the source point.
\<close>

definition ring_places :: "nat \<Rightarrow> nat list" where
  "ring_places IT = [IT + 1, IT + 2, 2 * IT + 1, 2 * IT + 2]"

text \<open>The places that the spec names for the same purpose.\<close>

definition claimed_places :: "nat \<Rightarrow> nat list" where
  "claimed_places IT = [IT, IT + 1, 2 * IT, 2 * IT + 1]"

text \<open>The input samples that the entries at the places \<open>ks\<close> of row \<open>i\<close> point to.\<close>

definition samples :: "heritage_map \<Rightarrow> real list \<Rightarrow> nat \<Rightarrow> nat list \<Rightarrow> real list" where
  "samples hm data_in i ks = map (\<lambda>k. data_in ! index (hinfo hm ! pos1D (ip hm) i k)) ks"

text \<open>
  A value clamped as the saturating block does it, for the samples \<open>vs\<close>: the ceiling
  starts at \<open>limit_min\<close>, the floor at \<open>limit_max\<close>.
\<close>

definition clamp_ring :: "config \<Rightarrow> real list \<Rightarrow> real \<Rightarrow> real" where
  "clamp_ring cfg vs s =
     max (min (max (limit_min cfg) (Max (set vs))) s) (min (limit_max cfg) (Min (set vs)))"

text \<open>
  Two tables used as examples: a quarter turn on a grid of two by three cells, and a
  half turn on a grid of two by two cells, both with the kernel of four points.
\<close>

definition ring_example :: heritage_map where
  "ring_example = the (RotationMap RT1 4 2 3 (pi / 2))"

definition ring_config :: config where
  "ring_config = \<lparr>interpol_type = 4, saturating = True, limit_min = 1 / 1024, limit_max = 1024\<rparr>"

definition boundary_example :: heritage_map where
  "boundary_example = the (RotationMap RT1 4 2 2 pi)"

text \<open>
  Three more tables used as examples: angle 0 in the build with \<^verbatim>\<open>ROTATION_TYPE 3\<close> on
  three by one cells, angle 0 on two by two cells, and a turn by the angle whose cosine
  is \<open>8 / 17\<close> and whose sine is \<open>15 / 17\<close> on three by two cells, all with the kernel of
  one point.
\<close>

definition division_example :: heritage_map where
  "division_example = the (RotationMap RT3 1 3 1 0)"

definition unit_example :: heritage_map where
  "unit_example = the (RotationMap RT1 1 2 2 0)"

definition turn_example :: heritage_map where
  "turn_example = the (RotationMap RT1 1 3 2 (arctan (15 / 8)))"

section \<open>The array classes of inc/Array.h\<close>

text \<open>
  The second part of the development covers the checked array classes of
  \<^verbatim>\<open>inc/Array.h\<close>, as compiled without \<^verbatim>\<open>NDEBUG\<close>: the helpers \<^verbatim>\<open>__check\<close> and
  \<^verbatim>\<open>__checkSize\<close> then call \<^verbatim>\<open>Check\<close> and \<^verbatim>\<open>CheckSize\<close>.
\<close>

unbundle bit_operations_syntax

subsection \<open>Faults and their reports\<close>

text \<open>
  \<^verbatim>\<open>ArrayExit\<close> throws the string \<^verbatim>\<open>"ERROR: " << x << "."\<close>; a thrown string is the fault
  \<open>Thrown\<close>. An access to \<^verbatim>\<open>v[k]\<close> outside the allocated block has no defined result in
  C++; the model returns the fault \<open>Undefined\<close> there, so that no property can rest on it.
\<close>

datatype fault = Thrown string | Undefined

definition ArrayExit :: "string \<Rightarrow> fault" where
  "ArrayExit x = Thrown (''ERROR: '' @ x @ ''.'')"

text \<open>
  What \<^verbatim>\<open>operator <<\<close> prints for an \<^verbatim>\<open>unsigned int\<close> and for an \<^verbatim>\<open>int\<close>: the decimal
  digits, with a leading minus sign for a negative number.
\<close>

fun show_nat :: "nat \<Rightarrow> string" where
  "show_nat n = (if n < 10 then [''0123456789'' ! n]
                 else show_nat (n div 10) @ [''0123456789'' ! (n mod 10)])"

declare show_nat.simps [simp del]

definition show_int :: "int \<Rightarrow> string" where
  "show_int z = (if z < 0 then CHR ''-'' # show_nat (nat (- z)) else show_nat (nat z))"

text \<open>
  The conversion of an integer value to \<^verbatim>\<open>int\<close> (32 bits, two's complement): the value
  taken modulo \<open>2 ^ 32\<close> into \<open>[-2 ^ 31, 2 ^ 31)\<close>. It is what happens to an
  \<^verbatim>\<open>unsigned int\<close> passed for an \<^verbatim>\<open>int\<close> parameter.
\<close>

definition s32 :: "int \<Rightarrow> int" where
  "s32 z = (z + 2 ^ 31) mod 2 ^ 32 - 2 ^ 31"

text \<open>
  \<^verbatim>\<open>array1::Check(int i, int n, unsigned int dim, unsigned int m, int o=0)\<close>: the result is
  the fault thrown, or \<open>None\<close> when the index is in \<open>[0, n)\<close>. The sums \<^verbatim>\<open>i+o\<close> and
  \<^verbatim>\<open>n+o-1\<close> are those of the integers (their overflow is undefined in C++).
\<close>

definition Check :: "int \<Rightarrow> int \<Rightarrow> nat \<Rightarrow> nat \<Rightarrow> int \<Rightarrow> fault option" where
  "Check i n dm m o' =
     (if i < 0 \<or> i \<ge> n
      then Some (ArrayExit
             (''Array'' @ show_nat dm @ '' index ''
              @ (if m \<noteq> 0 then show_nat m @ '' '' else '''')
              @ ''is out of bounds ('' @ show_int (i + o')
              @ (if n = 0 then '' index given to empty array''
                 else if i < 0 then '' < '' @ show_int o'
                 else '' > '' @ show_int (n + o' - 1))
              @ '')''))
      else None)"

text \<open>The read of \<^verbatim>\<open>v[k]\<close> in a block that holds the elements \<open>buf\<close>.\<close>

definition raw :: "'a list \<Rightarrow> int \<Rightarrow> fault + 'a" where
  "raw buf k = (if 0 \<le> k \<and> nat k < length buf then Inr (buf ! nat k) else Inl Undefined)"

subsection \<open>The classes\<close>

text \<open>
  The classes as records, a derived class extending the record of its base: \<open>v\<close> is the
  content of the block that the pointer \<^verbatim>\<open>v\<close> addresses, \<open>asize\<close> the member \<^verbatim>\<open>_size\<close>,
  \<open>state\<close> the allocation flags (\<^verbatim>\<open>allocated\<close> is bit 1). \<^verbatim>\<open>Array1\<close> is the
  one-dimensional array with an offset \<^verbatim>\<open>ox\<close>.
\<close>

record 'a array1 =
  v :: "'a list"
  asize :: nat
  state :: int

record 'a array2 = "'a array1" +
  nx :: nat
  ny :: nat

record 'a Array1 = "'a array1" +
  ox :: int

definition test :: "('a, 'b) array1_scheme \<Rightarrow> int \<Rightarrow> int" where
  "test A flag = state A AND flag"

text \<open>\<^verbatim>\<open>CheckSize\<close>: \<^verbatim>\<open>if(!test(allocated) && _size == 0) ArrayExit(...)\<close>.\<close>

definition CheckSize :: "('a, 'b) array1_scheme \<Rightarrow> fault option" where
  "CheckSize A =
     (if test A 1 = 0 \<and> asize A = 0
      then Some (ArrayExit ''Operation attempted on unallocated array'')
      else None)"

subsection \<open>Element access\<close>

text \<open>
  \<^verbatim>\<open>array1::operator () (int ix)\<close>, \<^verbatim>\<open>array2::operator () (int ix, int iy)\<close> and the flat
  \<^verbatim>\<open>array2::operator () (int i)\<close>. The unsigned bound is passed for the \<^verbatim>\<open>int\<close> parameter
  \<open>n\<close> of the check; the index \<^verbatim>\<open>ix*ny+iy\<close> is computed in \<^verbatim>\<open>unsigned int\<close>.
\<close>

definition array1_at :: "('a, 'b) array1_scheme \<Rightarrow> int \<Rightarrow> fault + 'a" where
  "array1_at A ix =
     (case Check ix (s32 (int (asize A))) 1 1 0 of
        Some f \<Rightarrow> Inl f
      | None \<Rightarrow> raw (v A) ix)"

definition array2_at :: "('a, 'b) array2_scheme \<Rightarrow> int \<Rightarrow> int \<Rightarrow> fault + 'a" where
  "array2_at A ix iy =
     (case Check ix (s32 (int (nx A))) 2 1 0 of
        Some f \<Rightarrow> Inl f
      | None \<Rightarrow>
          (case Check iy (s32 (int (ny A))) 2 2 0 of
             Some f \<Rightarrow> Inl f
           | None \<Rightarrow> raw (v A) ((ix * int (ny A) + iy) mod 2 ^ 32)))"

definition array2_flat :: "('a, 'b) array2_scheme \<Rightarrow> int \<Rightarrow> fault + 'a" where
  "array2_flat A i =
     (case Check i (s32 (int (asize A))) 2 0 0 of
        Some f \<Rightarrow> Inl f
      | None \<Rightarrow> raw (v A) i)"

text \<open>
  The check of the offset variant, \<^verbatim>\<open>Array1::__check(int i, int n, unsigned int o,
  unsigned int dim, int m)\<close>, calls \<^verbatim>\<open>Check(i-o,n,dim,m,o)\<close>: the difference is unsigned and
  converted to \<^verbatim>\<open>int\<close>, as is the offset. \<^verbatim>\<open>Array1::operator [] (int ix)\<close> reads
  \<^verbatim>\<open>voff[ix]\<close> with \<^verbatim>\<open>voff = v - ox\<close>.
\<close>

definition Array1_check :: "int \<Rightarrow> int \<Rightarrow> int \<Rightarrow> nat \<Rightarrow> nat \<Rightarrow> fault option" where
  "Array1_check i n o' dm m = Check (s32 (i - o')) n dm m (s32 o')"

definition Array1_at :: "('a, 'b) Array1_scheme \<Rightarrow> int \<Rightarrow> fault + 'a" where
  "Array1_at A ix =
     (case Array1_check ix (s32 (int (asize A))) (ox A) 1 1 of
        Some f \<Rightarrow> Inl f
      | None \<Rightarrow> raw (v A) (ix - ox A))"

subsection \<open>Compound operations between two arrays\<close>

text \<open>
  \<^verbatim>\<open>operator += (const array1<T>& A)\<close> and its relatives are
  \<^verbatim>\<open>__checkSize(); for(unsigned int i=0; i < _size; i++) v[i] += A(i);\<close>. The operand is
  read through its checked accessor \<open>atA\<close> (the \<^verbatim>\<open>unsigned int i\<close> is passed for an
  \<^verbatim>\<open>int\<close>), so the loop stops at the first fault, with the elements updated so far. The
  result is the fault, if any, and the content of the left operand. In \<^verbatim>\<open>array2\<close> the
  operators \<^verbatim>\<open>+=\<close> and \<^verbatim>\<open>-=\<close> read the operand through the flat accessor;
  \<^verbatim>\<open>array2::operator *= (const array2<T>&)\<close> is only declared.
\<close>

definition compound_step ::
  "('a \<Rightarrow> 'a \<Rightarrow> 'a) \<Rightarrow> (int \<Rightarrow> fault + 'a) \<Rightarrow> nat \<Rightarrow>
   fault option \<times> 'a list \<Rightarrow> fault option \<times> 'a list" where
  "compound_step f atA i s =
     (case s of
        (Some e, buf) \<Rightarrow> (Some e, buf)
      | (None, buf) \<Rightarrow>
          (case atA (s32 (int i)) of
             Inl e \<Rightarrow> (Some e, buf)
           | Inr x \<Rightarrow>
               if i < length buf then (None, buf[i := f (buf ! i) x])
               else (Some Undefined, buf)))"

definition compound ::
  "('a \<Rightarrow> 'a \<Rightarrow> 'a) \<Rightarrow> ('a, 'b) array1_scheme \<Rightarrow> (int \<Rightarrow> fault + 'a) \<Rightarrow>
   fault option \<times> 'a list" where
  "compound f B atA =
     (case CheckSize B of
        Some e \<Rightarrow> (Some e, v B)
      | None \<Rightarrow> fold (compound_step f atA) [0..<asize B] (None, v B))"

definition array1_add_assign ::
  "('a::plus, 'b) array1_scheme \<Rightarrow> ('a, 'c) array1_scheme \<Rightarrow> fault option \<times> 'a list" where
  "array1_add_assign B A = compound (+) B (array1_at A)"

definition array1_sub_assign ::
  "('a::minus, 'b) array1_scheme \<Rightarrow> ('a, 'c) array1_scheme \<Rightarrow> fault option \<times> 'a list" where
  "array1_sub_assign B A = compound (-) B (array1_at A)"

definition array1_mul_assign ::
  "('a::times, 'b) array1_scheme \<Rightarrow> ('a, 'c) array1_scheme \<Rightarrow> fault option \<times> 'a list" where
  "array1_mul_assign B A = compound (*) B (array1_at A)"

definition array2_add_assign ::
  "('a::plus, 'b) array2_scheme \<Rightarrow> ('a, 'c) array2_scheme \<Rightarrow> fault option \<times> 'a list" where
  "array2_add_assign B A = compound (+) B (array2_flat A)"

definition array2_sub_assign ::
  "('a::minus, 'b) array2_scheme \<Rightarrow> ('a, 'c) array2_scheme \<Rightarrow> fault option \<times> 'a list" where
  "array2_sub_assign B A = compound (-) B (array2_flat A)"

subsection \<open>Compound operations with a scalar\<close>

text \<open>
  \<^verbatim>\<open>array1::operator += (T a)\<close> is \<^verbatim>\<open>for(unsigned int i=0; i < _size; i++) v[i] += a;\<close>
  after the size check.
\<close>

definition scalar_step ::
  "('a \<Rightarrow> 'a) \<Rightarrow> nat \<Rightarrow> fault option \<times> 'a list \<Rightarrow> fault option \<times> 'a list" where
  "scalar_step f i s =
     (case s of
        (Some e, buf) \<Rightarrow> (Some e, buf)
      | (None, buf) \<Rightarrow>
          if i < length buf then (None, buf[i := f (buf ! i)]) else (Some Undefined, buf))"

definition array1_scalar :: "('a \<Rightarrow> 'a) \<Rightarrow> ('a, 'b) array1_scheme \<Rightarrow> fault option \<times> 'a list" where
  "array1_scalar f B =
     (case CheckSize B of
        Some e \<Rightarrow> (Some e, v B)
      | None \<Rightarrow> fold (scalar_step f) [0..<asize B] (None, v B))"

definition array1_add_scalar :: "('a::plus, 'b) array1_scheme \<Rightarrow> 'a \<Rightarrow> fault option \<times> 'a list" where
  "array1_add_scalar B a = array1_scalar (\<lambda>x. x + a) B"

definition array1_sub_scalar :: "('a::minus, 'b) array1_scheme \<Rightarrow> 'a \<Rightarrow> fault option \<times> 'a list" where
  "array1_sub_scalar B a = array1_scalar (\<lambda>x. x - a) B"

text \<open>
  \<^verbatim>\<open>array2::operator += (T a)\<close> is
  \<^verbatim>\<open>unsigned int inc=ny+1; for(unsigned int i=0; i < _size; i += inc) v[i] += a;\<close>.
  The counter wraps at \<open>2 ^ 32\<close>, so the loop need not end (an increment of 0, or a wrap
  below the size): it is a partial function, and \<open>None\<close> stands for a loop that does not
  return.
\<close>

partial_function (option) stride_loop ::
  "('a \<Rightarrow> 'a) \<Rightarrow> nat \<Rightarrow> nat \<Rightarrow> nat \<Rightarrow> 'a list \<Rightarrow> (fault option \<times> 'a list) option" where
  "stride_loop f inc n i buf =
     (if i < n
      then (if i < length buf
            then stride_loop f inc n ((i + inc) mod 2 ^ 32) (buf[i := f (buf ! i)])
            else Some (Some Undefined, buf))
      else Some (None, buf))"

definition array2_scalar ::
  "('a \<Rightarrow> 'a) \<Rightarrow> ('a, 'b) array2_scheme \<Rightarrow> (fault option \<times> 'a list) option" where
  "array2_scalar f B =
     (case CheckSize B of
        Some e \<Rightarrow> Some (Some e, v B)
      | None \<Rightarrow> stride_loop f ((ny B + 1) mod 2 ^ 32) (asize B) 0 (v B))"

definition array2_add_scalar ::
  "('a::plus, 'b) array2_scheme \<Rightarrow> 'a \<Rightarrow> (fault option \<times> 'a list) option" where
  "array2_add_scalar B a = array2_scalar (\<lambda>x. x + a) B"

definition array2_sub_scalar ::
  "('a::minus, 'b) array2_scheme \<Rightarrow> 'a \<Rightarrow> (fault option \<times> 'a list) option" where
  "array2_sub_scalar B a = array2_scalar (\<lambda>x. x - a) B"

subsection \<open>Notions used to state the properties of the arrays\<close>

text \<open>
  The content after a loop that applies \<open>f\<close> at the flat indices below \<open>n\<close> that are
  multiples of \<open>inc\<close>, and after a loop that combines the first \<open>k\<close> elements with those
  of an operand.
\<close>

definition stride_update :: "('a \<Rightarrow> 'a) \<Rightarrow> nat \<Rightarrow> nat \<Rightarrow> 'a list \<Rightarrow> 'a list" where
  "stride_update f inc n buf =
     map (\<lambda>k. if k < n \<and> inc dvd k then f (buf ! k) else buf ! k) [0..<length buf]"

definition flat_update :: "('a \<Rightarrow> 'a \<Rightarrow> 'a) \<Rightarrow> nat \<Rightarrow> 'a list \<Rightarrow> 'a list \<Rightarrow> 'a list" where
  "flat_update f k vb va = map (\<lambda>i. if i < k then f (vb ! i) (va ! i) else vb ! i) [0..<length vb]"

text \<open>
  An array whose block holds as many elements as its size says, the size being one that
  an \<^verbatim>\<open>int\<close> can hold; the values of an \<^verbatim>\<open>int\<close>.
\<close>

definition wf_array :: "('a, 'b) array1_scheme \<Rightarrow> bool" where
  "wf_array A \<longleftrightarrow> length (v A) = asize A \<and> asize A < 2 ^ 31"

definition int32 :: "int \<Rightarrow> bool" where
  "int32 z \<longleftrightarrow> - (2 ^ 31) \<le> z \<and> z < 2 ^ 31"

text \<open>
  The content of a bounds report: the result \<open>r\<close> of an access is a thrown message that
  names the dimension \<open>dm\<close> of the array, the number \<open>m\<close> of the index (the source prints
  it when it is not 0; the flat access of a multi-dimensional array passes 0), the value
  \<open>val\<close> that was given, and the bound that it violates: the lower bound \<open>lo\<close> or the upper
  bound \<open>lo + n - 1\<close>, or, for \<open>n = 0\<close>, that the array is empty.
\<close>

definition names_fault :: "fault + 'a \<Rightarrow> nat \<Rightarrow> nat \<Rightarrow> int \<Rightarrow> int \<Rightarrow> nat \<Rightarrow> bool" where
  "names_fault r dm m val lo n \<longleftrightarrow>
     (case r of
        Inl (Thrown msg) \<Rightarrow>
          sublist (''Array'' @ show_nat dm) msg \<and>
          (m \<noteq> 0 \<longrightarrow> sublist (''index '' @ show_nat m) msg) \<and>
          sublist (''out of bounds ('' @ show_int val) msg \<and>
          (if n = 0 then sublist ''empty array'' msg
           else if val < lo then sublist (''< '' @ show_int lo @ '')'') msg
           else sublist (''> '' @ show_int (lo + int n - 1) @ '')'') msg)
      | _ \<Rightarrow> False)"

section \<open>Properties of the sequential apply\<close>

lemma pos1D_less:
  assumes "i < m" "j < n"
  shows "pos1D n i j < m * n"
proof -
  have "i * n + j < i * n + n" using assms by simp
  also have "\<dots> = Suc i * n" by simp
  also have "\<dots> \<le> m * n" using assms by (intro mult_le_mono1) simp
  finally show ?thesis by (simp add: pos1D_def)
qed

lemma wf_map_rd:
  assumes "wf_map hm n" "i < hm_size hm" "j < ip hm"
  shows "rd (hinfo hm) (pos1D (ip hm) i j) = Some (hinfo hm ! pos1D (ip hm) i j)"
    and "index (hinfo hm ! pos1D (ip hm) i j) < n"
proof -
  have l: "pos1D (ip hm) i j < length (hinfo hm)"
    using assms pos1D_less[of i "hm_size hm" j "ip hm"] by (simp add: wf_map_def)
  then show "rd (hinfo hm) (pos1D (ip hm) i j) = Some (hinfo hm ! pos1D (ip hm) i j)"
    by (simp add: rd_def)
  from l assms(1) show "index (hinfo hm ! pos1D (ip hm) i j) < n"
    by (simp add: wf_map_def list_all_length)
qed

text \<open>The inner loop after \<open>n\<close> rounds, started from \<open>a\<close>.\<close>

lemma acc_fold:
  assumes "wf_map hm (length d)" "i < hm_size hm" "n \<le> ip hm"
  shows "fold (acc_step hm d i) [0..<n] (Some a) =
         Some (a + (\<Sum>k<n. d ! index (hinfo hm ! pos1D (ip hm) i k)
                            * weight (hinfo hm ! pos1D (ip hm) i k)))"
  using assms(3)
proof (induction n)
  case 0
  then show ?case by simp
next
  case (Suc n)
  then have n: "n < ip hm" by simp
  show ?case
    using Suc wf_map_rd[OF assms(1,2) n]
    by (simp add: acc_step_def rd_def)
qed

lemma accumulate_row_sum:
  assumes "wf_map hm (length d)" "i < hm_size hm"
  shows "accumulate hm d i = Some (row_sum hm d i)"
  using acc_fold[OF assms, of "ip hm" 0] by (simp add: accumulate_def row_sum_def)

text \<open>The outer loop after \<open>n\<close> rounds: the first \<open>n\<close> cells of the output are written.\<close>

lemma apply_fold:
  assumes "\<And>i. i < n \<Longrightarrow> apply_cell cfg hm d i = Some (f i)" "n \<le> length dout"
  shows "fold (apply_step cfg hm d) [0..<n] (Some dout) = Some (map f [0..<n] @ drop n dout)"
  using assms
proof (induction n)
  case 0
  then show ?case by simp
next
  case (Suc n)
  have "(map f [0..<n] @ drop n dout)[n := f n] = map f [0..<n] @ (drop n dout)[0 := f n]"
    by (simp add: list_update_append)
  also have "(drop n dout)[0 := f n] = f n # drop (Suc n) dout"
    using Suc.prems(2) by (metis Cons_nth_drop_Suc Suc_le_lessD list_update_code(2))
  finally show ?case using Suc by (simp add: apply_step_def)
qed

lemma apply_map_cells:
  assumes "\<And>i. i < hm_size hm \<Longrightarrow> apply_cell cfg hm d i = Some (f i)"
    and "length dout = hm_size hm"
  shows "apply_map cfg hm d dout = Some (map f [0..<hm_size hm])"
  using apply_fold[of "hm_size hm" cfg hm d f dout] assms by (simp add: apply_map_def)

text \<open>
  Claim C1. For every target index \<open>i\<close> below \<open>sizeX * sizeY\<close> the inner loop of the
  sequential apply, started from 0, leaves in \<^verbatim>\<open>data_out[i]\<close> the sum over all \<^verbatim>\<open>_ip\<close>
  entries of row \<open>i\<close> of the input at the entry's source index times the entry's
  weight; no entry is skipped. Without the saturating block this sum is what apply
  returns in cell \<open>i\<close>.
\<close>

theorem apply_accumulates:
  assumes "wf_map hm (length data_in)" and "length data_out = hm_size hm"
  shows "(\<forall>i<hm_size hm. accumulate hm data_in i = Some (row_sum hm data_in i)) \<and>
         (\<not> saturating cfg \<longrightarrow>
            apply_map cfg hm data_in data_out = Some (map (row_sum hm data_in) [0..<hm_size hm]))"
proof (intro conjI allI impI)
  fix i assume "i < hm_size hm"
  then show "accumulate hm data_in i = Some (row_sum hm data_in i)"
    by (rule accumulate_row_sum[OF assms(1)])
next
  assume ns: "\<not> saturating cfg"
  show "apply_map cfg hm data_in data_out = Some (map (row_sum hm data_in) [0..<hm_size hm])"
  proof (rule apply_map_cells[OF _ assms(2)])
    fix i assume "i < hm_size hm"
    then show "apply_cell cfg hm data_in i = Some (row_sum hm data_in i)"
      using ns accumulate_row_sum[OF assms(1)] by (simp add: apply_cell_def)
  qed
qed

text \<open>
  A grid of one by two cells, rows of two entries; the second entry of the second row
  is the zero sentinel and is summed like the others.
\<close>

theorem apply_accumulates_witness:
  "wf_map \<lparr>xsize = 1, ysize = 2, ip = 2,
           hinfo = [\<lparr>index = 1, weight = 2\<rparr>, \<lparr>index = 0, weight = 1\<rparr>,
                    \<lparr>index = 0, weight = 3\<rparr>, \<lparr>index = 0, weight = 0\<rparr>]\<rparr> (length [5, 7 :: real])
   \<and> length [0, 0 :: real] = 2
   \<and> apply_map \<lparr>interpol_type = 1, saturating = False, limit_min = 0, limit_max = 1\<rparr>
         \<lparr>xsize = 1, ysize = 2, ip = 2,
          hinfo = [\<lparr>index = 1, weight = 2\<rparr>, \<lparr>index = 0, weight = 1\<rparr>,
                   \<lparr>index = 0, weight = 3\<rparr>, \<lparr>index = 0, weight = 0\<rparr>]\<rparr> [5, 7] [0, 0]
       = Some [19, 15]"
proof -
  let ?hm = "\<lparr>xsize = 1, ysize = 2, ip = 2,
           hinfo = [\<lparr>index = 1, weight = 2\<rparr>, \<lparr>index = 0, weight = 1\<rparr>,
                    \<lparr>index = 0, weight = 3\<rparr>, \<lparr>index = 0, weight = 0\<rparr>]\<rparr>"
  have wf: "wf_map ?hm (length [5, 7 :: real])"
    by (simp add: wf_map_def hm_size_def)
  have len: "length [0, 0 :: real] = hm_size ?hm"
    by (simp add: hm_size_def)
  have two: "[0..<2] = [0, Suc 0]" "{..<2::nat} = {0, Suc 0}"
    by (auto simp: upt_rec)
  show ?thesis
    using wf apply_accumulates[OF wf len,
        of "\<lparr>interpol_type = 1, saturating = False, limit_min = 0, limit_max = 1\<rparr>"]
    by (simp add: hm_size_def row_sum_def pos1D_def two)
qed

section \<open>Loops that write a table\<close>

lemma fold_nested_product:
  "fold (\<lambda>a. fold (f a) bs) as s = fold (\<lambda>(a, b). f a b) (List.product as bs) s"
proof (induction as arbitrary: s)
  case Nil
  then show ?case by simp
next
  case (Cons a as)
  have "fold (\<lambda>(a, b). f a b) (map (Pair a) bs) s = fold (f a) bs s"
    by (simp add: fold_map comp_def)
  with Cons show ?case by simp
qed

lemma fold_length:
  assumes "\<And>x t. length (F x t) = length t"
  shows "length (fold F xs t) = length t"
  by (induction xs arbitrary: t) (simp_all add: assms)

lemma fold_frame:
  assumes "\<And>x t. x \<in> set xs \<Longrightarrow> k \<notin> blk x \<Longrightarrow> F x t ! k = t ! k"
    and "\<And>x. x \<in> set xs \<Longrightarrow> k \<notin> blk x"
  shows "fold F xs t ! k = t ! k"
  using assms by (induction xs arbitrary: t) simp_all

lemma fold_blocks:
  assumes len: "\<And>x t. length (F x t) = length t"
    and frame: "\<And>x t j. j \<notin> blk x \<Longrightarrow> F x t ! j = t ! j"
    and loc: "\<And>t t'. length t = length t' \<Longrightarrow> k < length t \<Longrightarrow> t ! k = t' ! k
                 \<Longrightarrow> F x t ! k = F x t' ! k"
    and disj: "\<And>y. y \<in> set xs \<Longrightarrow> y \<noteq> x \<Longrightarrow> k \<notin> blk y"
    and "distinct xs" "x \<in> set xs" "k < length t"
  shows "fold F xs t ! k = F x t ! k"
  using disj \<open>distinct xs\<close> \<open>x \<in> set xs\<close> \<open>k < length t\<close>
proof (induction xs arbitrary: t)
  case Nil
  then show ?case by simp
next
  case (Cons y ys)
  show ?case
  proof (cases "y = x")
    case True
    then have "x \<notin> set ys" using Cons.prems(2) by simp
    then have "\<And>z. z \<in> set ys \<Longrightarrow> k \<notin> blk z" using Cons.prems(1) by auto
    then have "fold F ys (F x t) ! k = F x t ! k"
      by (intro fold_frame[where blk = blk]) (simp_all add: frame)
    with True show ?thesis by simp
  next
    case False
    then have x: "x \<in> set ys" using Cons.prems(3) by simp
    have ky: "k \<notin> blk y" using Cons.prems(1)[of y] False by simp
    have "fold F ys (F y t) ! k = F x (F y t) ! k"
      using Cons.prems(1,2,4) x by (intro Cons.IH) (simp_all add: len)
    also have "\<dots> = F x t ! k"
      using ky Cons.prems(4) by (intro loc) (simp_all add: len frame)
    finally show ?thesis by simp
  qed
qed

lemma fold_option:
  assumes "\<And>x t. f x (Some t) = Some (g x t)"
  shows "fold f xs (Some t) = Some (fold g xs t)"
  by (induction xs arbitrary: t) (simp_all add: assms)

subsection \<open>Index arithmetic\<close>

lemma digits_inj:
  fixes a b a' b' n :: nat
  assumes "a * n + b = a' * n + b'" "b < n" "b' < n"
  shows "a = a' \<and> b = b'"
proof -
  have "(a * n + b) div n = a" "(a' * n + b') div n = a'"
    using assms(2,3) by simp_all
  then have "a = a'" using assms(1) by simp
  with assms(1) show ?thesis by simp
qed

lemma digits_less:
  fixes a b m n :: nat
  assumes "a < m" "b < n"
  shows "a * n + b < m * n"
proof -
  have "a * n + b < a * n + n" using assms by simp
  also have "\<dots> = Suc a * n" by simp
  also have "\<dots> \<le> m * n" using assms by (intro mult_le_mono1) simp
  finally show ?thesis .
qed

lemma pos3D_inj:
  assumes "pos3D ys n q p k = pos3D ys n q' p' k'" "p < ys" "p' < ys" "k < n" "k' < n"
  shows "q = q' \<and> p = p' \<and> k = k'"
proof -
  have 1: "q * ys + p = q' * ys + p' \<and> k = k'"
    using assms(1,4,5) unfolding pos3D_def by (rule digits_inj)
  then have "q = q' \<and> p = p'" using assms(2,3) by (intro digits_inj) simp_all
  with 1 show ?thesis by simp
qed

lemma pos3D_less:
  assumes "q < xs" "p < ys" "k < n"
  shows "pos3D ys n q p k < xs * ys * n"
  unfolding pos3D_def using digits_less[OF digits_less[OF assms(1,2)] assms(3)] .

subsection \<open>The assembly loop and the loop that writes a row\<close>

lemma assemble_length: "length (assemble IT icq icp hmc0) = length hmc0"
  unfolding assemble_def by (intro fold_length) simp

lemma assemble_nth:
  assumes "a < IT" "b < IT" "length hmc0 = IT * IT"
  shows "assemble IT icq icp hmc0 ! (a * IT + b) = icq ! a * icp ! b"
proof -
  let ?F = "\<lambda>(hmq, hmp) hmc. hmc[hmp * IT + hmq := icq ! hmp * icp ! hmq]"
  let ?blk = "\<lambda>(hmq, hmp). {hmp * IT + hmq}"
  let ?k = "a * IT + b"
  have k: "?k < length hmc0" using assms digits_less[of a IT b IT] by simp
  have "fold ?F (List.product [0..<IT] [0..<IT]) hmc0 ! ?k = ?F (b, a) hmc0 ! ?k"
  proof (rule fold_blocks[where blk = ?blk])
    fix y assume y: "y \<in> set (List.product [0..<IT] [0..<IT])" "y \<noteq> (b, a)"
    obtain hq hp where yp: "y = (hq, hp)" by (cases y)
    have hq: "hq < IT" using y(1) yp by simp
    have "a * IT + b \<noteq> hp * IT + hq"
    proof
      assume "a * IT + b = hp * IT + hq"
      then have "a = hp \<and> b = hq" using assms(2) \<open>hq < IT\<close> by (rule digits_inj)
      with y(2) yp show False by simp
    qed
    then show "a * IT + b \<notin> ?blk y" by (simp add: yp)
  next
    fix t t' :: "real list"
    assume "length t = length t'" "?k < length t" "t ! ?k = t' ! ?k"
    then show "?F (b, a) t ! ?k = ?F (b, a) t' ! ?k" by simp
  next
    show "distinct (List.product [0..<IT] [0..<IT])" by (simp add: distinct_product)
  next
    show "(b, a) \<in> set (List.product [0..<IT] [0..<IT])" using assms(1,2) by simp
  next
    show "?k < length hmc0" by (rule k)
  qed (simp_all split: prod.splits)
  then show ?thesis using k by (simp add: assemble_def fold_nested_product)
qed

lemma write_row_length: "length (write_row IT xs ys hmc idq jd q p tab) = length tab"
  unfolding write_row_def by (intro fold_length) simp

lemma write_row_nth:
  assumes "a < IT" "b < IT" "pos3D ys (IT * IT) q p (a * IT + b) < length tab"
  shows "write_row IT xs ys hmc idq jd q p tab ! pos3D ys (IT * IT) q p (a * IT + b)
         = ph IT xs ys hmc idq jd a b"
proof -
  let ?F = "\<lambda>(j1, i1) t. t[pos3D ys (IT * IT) q p (i1 * IT + j1) := ph IT xs ys hmc idq jd i1 j1]"
  let ?blk = "\<lambda>(j1, i1). {pos3D ys (IT * IT) q p (i1 * IT + j1)}"
  let ?k = "pos3D ys (IT * IT) q p (a * IT + b)"
  have "fold ?F (List.product [0..<IT] [0..<IT]) tab ! ?k = ?F (b, a) tab ! ?k"
  proof (rule fold_blocks[where blk = ?blk])
    fix y assume y: "y \<in> set (List.product [0..<IT] [0..<IT])" "y \<noteq> (b, a)"
    obtain hq hp where yp: "y = (hq, hp)" by (cases y)
    have hq: "hq < IT" using y(1) yp by simp
    have "a * IT + b \<noteq> hp * IT + hq"
    proof
      assume "a * IT + b = hp * IT + hq"
      then have "a = hp \<and> b = hq" using assms(2) \<open>hq < IT\<close> by (rule digits_inj)
      with y(2) yp show False by simp
    qed
    then show "?k \<notin> ?blk y" by (simp add: yp pos3D_def)
  next
    fix t t' :: "hi list"
    assume "length t = length t'" "?k < length t" "t ! ?k = t' ! ?k"
    then show "?F (b, a) t ! ?k = ?F (b, a) t' ! ?k" by simp
  next
    show "distinct (List.product [0..<IT] [0..<IT])" by (simp add: distinct_product)
  next
    show "(b, a) \<in> set (List.product [0..<IT] [0..<IT])" using assms(1,2) by simp
  next
    show "?k < length tab" by (rule assms(3))
  qed (simp_all split: prod.splits)
  then show ?thesis using assms(3) by (simp add: write_row_def fold_nested_product)
qed

lemma write_row_frame:
  assumes "\<And>j. j < IT * IT \<Longrightarrow> k \<noteq> pos3D ys (IT * IT) q p j"
  shows "write_row IT xs ys hmc idq jd q p tab ! k = tab ! k"
proof -
  let ?F = "\<lambda>(j1, i1) t. t[pos3D ys (IT * IT) q p (i1 * IT + j1) := ph IT xs ys hmc idq jd i1 j1]"
  let ?blk = "\<lambda>(j1, i1). {pos3D ys (IT * IT) q p (i1 * IT + j1)}"
  have "fold ?F (List.product [0..<IT] [0..<IT]) tab ! k = tab ! k"
  proof (rule fold_frame[where blk = ?blk])
    fix x assume x: "x \<in> set (List.product [0..<IT] [0..<IT])"
    obtain hq hp where xp: "x = (hq, hp)" by (cases x)
    have "hp * IT + hq < IT * IT" using x xp by (intro digits_less) simp_all
    then show "k \<notin> ?blk x" using assms[of "hp * IT + hq"] by (simp add: xp)
  next
    fix x t assume "k \<notin> ?blk x"
    then show "?F x t ! k = t ! k" by (cases x) simp
  qed
  then show ?thesis by (simp add: write_row_def fold_nested_product)
qed

section \<open>The interpolation coefficients\<close>

lemma upt_small:
  "[0..<Suc 0] = [0]" "[0..<2] = [0, 1]" "[0..<3] = [0, 1, 2]" "[0..<4] = [0, 1, 2, 3]"
  by (simp_all add: upt_rec)

lemma icoeff_cases:
  "icoeff (Suc 0) x = Some [1]"
  "icoeff 2 x = Some [1 - x, x]"
  "icoeff 3 x = Some [x * (x - 1) / 2, 1 - x * x, x * (x + 1) / 2]"
  "icoeff 4 x = Some [(x - 1) * (x - 2) * x * (- 1 / 6), (x + 1) * (x - 1) * (x - 2) / 2,
                       (2 - x) * x * (x + 1) / 2, x * (x + 1) * (x - 1) * (1 / 6)]"
  by (simp_all add: icoeff_def)

lemma lag1: "map (\<lambda>j. lagrange (nodes (Suc 0)) j x) [0..<Suc 0] = [1]"
  by (simp add: nodes_def lagrange_def upt_small)

lemma lag2: "map (\<lambda>j. lagrange (nodes 2) j x) [0..<2] = [1 - x, x]"
  by (simp add: nodes_def lagrange_def upt_small)

lemma lag3: "map (\<lambda>j. lagrange (nodes 3) j x) [0..<3] = [x * (x - 1) / 2, 1 - x * x, x * (x + 1) / 2]"
  by (simp add: nodes_def lagrange_def upt_small) (simp add: field_simps)

lemma lag4: "map (\<lambda>j. lagrange (nodes 4) j x) [0..<4] =
   [(x - 1) * (x - 2) * x * (- 1 / 6), (x + 1) * (x - 1) * (x - 2) / 2,
                       (2 - x) * x * (x + 1) / 2, x * (x + 1) * (x - 1) * (1 / 6)]"
  by (simp add: nodes_def lagrange_def upt_small) (simp add: field_simps)

lemma IT_cases:
  assumes "IT \<in> {1, 2, 3, 4}"
  obtains "IT = Suc 0" | "IT = 2" | "IT = 3" | "IT = 4"
  using assms by auto

text \<open>
  Claim C4. For every interpolation order among 1, 2, 3, 4 and every offset \<open>x\<close> (in
  particular every \<open>x\<close> from 0 up to 1) the coefficients that the constructor computes
  are the values at \<open>x\<close> of the Lagrange basis polynomials on the nodes of the kernel:
  weight 1 for order 1; \<open>1 - x\<close> and \<open>x\<close> on the nodes 0, 1 for order 2; \<open>x(x-1)/2\<close>,
  \<open>1 - x\<^sup>2\<close>, \<open>x(x+1)/2\<close> on the nodes -1, 0, 1 for order 3; the cubic basis on the nodes
  -1, 0, 1, 2 for order 4.
\<close>

theorem icoeff_lagrange:
  assumes "IT \<in> {1, 2, 3, 4}"
  shows "icoeff IT x = Some (map (\<lambda>j. lagrange (nodes IT) j x) [0..<IT]) \<and>
         (IT = 1 \<longrightarrow> icoeff IT x = Some [1]) \<and>
         (IT = 2 \<longrightarrow> icoeff IT x = Some [1 - x, x] \<and> nodes IT = [0, 1]) \<and>
         (IT = 3 \<longrightarrow> icoeff IT x = Some [x * (x - 1) / 2, 1 - x\<^sup>2, x * (x + 1) / 2]
                   \<and> nodes IT = [- 1, 0, 1]) \<and>
         (IT = 4 \<longrightarrow> nodes IT = [- 1, 0, 1, 2])"
  using assms
proof (cases rule: IT_cases)
  case 1
  then show ?thesis using lag1[of x] by (simp add: icoeff_cases nodes_def)
next
  case 2
  then show ?thesis by (simp add: icoeff_cases lag2) (simp add: nodes_def upt_small)
next
  case 3
  then show ?thesis
    by (simp add: icoeff_cases lag3 power2_eq_square) (simp add: nodes_def upt_small)
next
  case 4
  then show ?thesis by (simp add: icoeff_cases lag4) (simp add: nodes_def upt_small)
qed

text \<open>The quadratic kernel half way between two cells.\<close>

theorem icoeff_lagrange_witness:
  "(3 :: nat) \<in> {1, 2, 3, 4} \<and> icoeff 3 (1 / 2) = Some [- 1 / 8, 3 / 4, 3 / 8]"
  using icoeff_lagrange[of 3 "1 / 2", THEN conjunct2] by (simp add: power2_eq_square)

lemma icoeff_sum:
  assumes "IT \<in> {1, 2, 3, 4}"
  shows "\<exists>ic. icoeff IT x = Some ic \<and> length ic = IT \<and> sum_list ic = 1"
  using assms
proof (cases rule: IT_cases)
  case 1
  then show ?thesis by (simp add: icoeff_cases)
next
  case 2
  then show ?thesis by (simp add: icoeff_cases)
next
  case 3
  then show ?thesis by (simp add: icoeff_cases field_simps)
next
  case 4
  then show ?thesis by (simp add: icoeff_cases field_simps)
qed

section \<open>The table that the constructor builds\<close>

lemma icoeff_Some:
  assumes "IT \<in> {1, 2, 3, 4}"
  obtains ic where "icoeff IT x = Some ic" "length ic = IT" "sum_list ic = 1"
  using icoeff_sum[OF assms, of x] by blast

lemma build_cell_total:
  assumes "IT \<in> {1, 2, 3, 4}"
  shows "build_cell rt IT xs ys c s q p tab = Some (cell_tab rt IT xs ys c s q p tab)"
proof -
  obtain qc pc where co: "rot_coords rt xs ys c s q p = (qc, pc)" by (cases "rot_coords rt xs ys c s q p")
  obtain icq where q: "icoeff IT (qc - of_int (trunc qc)) = Some icq"
    using icoeff_Some[OF assms] by blast
  obtain icp where p: "icoeff IT (pc - of_int (trunc pc)) = Some icp"
    using icoeff_Some[OF assms] by blast
  show ?thesis
    by (simp add: build_cell_def cell_tab_def src_cell_def src_frac_def co modf_def q p
        stencil_weights_def Let_def)
qed

lemma cell_tab_length: "length (cell_tab rt IT xs ys c s q p tab) = length tab"
  by (simp add: cell_tab_def write_row_length split: prod.splits)

lemma cell_tab_frame:
  assumes "\<And>j. j < IT * IT \<Longrightarrow> k \<noteq> pos3D ys (IT * IT) q p j"
  shows "cell_tab rt IT xs ys c s q p tab ! k = tab ! k"
  using assms by (simp add: cell_tab_def write_row_frame split: prod.splits)

lemma cell_tab_nth:
  assumes "a < IT" "b < IT" "pos3D ys (IT * IT) q p (a * IT + b) < length tab"
    and "src_cell rt xs ys c s q p = (cq, cp)" "src_frac rt xs ys c s q p = (xq, xp)"
  shows "cell_tab rt IT xs ys c s q p tab ! pos3D ys (IT * IT) q p (a * IT + b) =
         (if cq < xs \<and> cp < ys then ph IT xs ys (stencil_weights IT xq xp) cq cp a b
          else tab ! pos3D ys (IT * IT) q p (a * IT + b))"
  using assms by (simp add: cell_tab_def write_row_nth)

lemma build_loops_total:
  assumes "IT \<in> {1, 2, 3, 4}"
  shows "build_loops rt IT xs ys c s tab0 =
         Some (fold (\<lambda>(q, p). cell_tab rt IT xs ys c s q p) (List.product [0..<xs] [0..<ys]) tab0)"
proof -
  have inner: "\<And>q t. fold (build_step rt IT xs ys c s q) [0..<ys] (Some t)
                 = Some (fold (cell_tab rt IT xs ys c s q) [0..<ys] t)"
    by (rule fold_option) (simp add: build_step_def build_cell_total[OF assms])
  have "build_loops rt IT xs ys c s tab0 =
        Some (fold (\<lambda>q. fold (cell_tab rt IT xs ys c s q) [0..<ys]) [0..<xs] tab0)"
    unfolding build_loops_def by (rule fold_option) (rule inner)
  then show ?thesis by (simp add: fold_nested_product)
qed

lemma build_loops_length:
  assumes "IT \<in> {1, 2, 3, 4}" "build_loops rt IT xs ys c s tab0 = Some tab"
  shows "length tab = length tab0"
proof -
  have "length (fold (\<lambda>(q, p). cell_tab rt IT xs ys c s q p) (List.product [0..<xs] [0..<ys]) tab0)
        = length tab0"
    by (rule fold_length) (simp add: cell_tab_length split: prod.splits)
  then show ?thesis using assms build_loops_total[OF assms(1), of rt xs ys c s tab0] by simp
qed

lemma build_loops_nth:
  assumes IT: "IT \<in> {1, 2, 3, 4}" and "q < xs" "p < ys" "a < IT" "b < IT"
    and len: "length tab0 = xs * ys * (IT * IT)"
    and sc: "src_cell rt xs ys c s q p = (cq, cp)" and sf: "src_frac rt xs ys c s q p = (xq, xp)"
  shows "\<exists>tab. build_loops rt IT xs ys c s tab0 = Some tab \<and>
           tab ! pos3D ys (IT * IT) q p (a * IT + b) =
           (if cq < xs \<and> cp < ys then ph IT xs ys (stencil_weights IT xq xp) cq cp a b
            else tab0 ! pos3D ys (IT * IT) q p (a * IT + b))"
proof -
  let ?n = "IT * IT"
  let ?F = "\<lambda>(q, p). cell_tab rt IT xs ys c s q p"
  let ?blk = "\<lambda>(q, p). {pos3D ys ?n q p j | j. j < ?n}"
  let ?k = "pos3D ys ?n q p (a * IT + b)"
  have ab: "a * IT + b < ?n" using assms(4,5) by (intro digits_less)
  have k: "?k < length tab0" using len pos3D_less[OF assms(2,3) ab] by simp
  have "fold ?F (List.product [0..<xs] [0..<ys]) tab0 ! ?k = ?F (q, p) tab0 ! ?k"
  proof (rule fold_blocks[where blk = ?blk])
    fix y assume y: "y \<in> set (List.product [0..<xs] [0..<ys])" "y \<noteq> (q, p)"
    obtain q' p' where yp: "y = (q', p')" by (cases y)
    have p': "p' < ys" using y(1) yp by simp
    have "?k \<noteq> pos3D ys ?n q' p' j" if "j < ?n" for j
    proof
      assume "?k = pos3D ys ?n q' p' j"
      then have "q = q' \<and> p = p' \<and> a * IT + b = j"
        using assms(3) p' ab that by (rule pos3D_inj)
      with y(2) yp show False by simp
    qed
    then show "?k \<notin> ?blk y" by (auto simp: yp)
  next
    fix x t j assume "j \<notin> ?blk x"
    then show "?F x t ! j = t ! j"
      by (cases x) (auto intro!: cell_tab_frame)
  next
    fix t t' :: "hi list"
    assume "length t = length t'" "?k < length t" "t ! ?k = t' ! ?k"
    then show "?F (q, p) t ! ?k = ?F (q, p) t' ! ?k"
      by (simp add: cell_tab_nth[OF assms(4,5) _ sc sf])
  next
    show "distinct (List.product [0..<xs] [0..<ys])" by (simp add: distinct_product)
  next
    show "(q, p) \<in> set (List.product [0..<xs] [0..<ys])" using assms(2,3) by simp
  next
    show "?k < length tab0" by (rule k)
  qed (simp add: cell_tab_length split: prod.splits)
  then show ?thesis
    using build_loops_total[OF IT, of rt xs ys c s tab0] cell_tab_nth[OF assms(4,5) k sc sf]
    by simp
qed

lemma half_order:
  assumes "IT \<in> {1, 2, 3, 4 :: nat}"
  shows "(IT - 1) div 2 \<le> 1" "IT \<le> 4"
  using assms by auto

lemma stencil_cell_int:
  assumes "d < xs" "xs < 2 ^ 31" "a < IT" "IT \<in> {1, 2, 3, 4}"
  shows "stencil_cell IT d a < xs \<longleftrightarrow>
           0 \<le> int d + int a - int ((IT - 1) div 2) \<and> int d + int a - int ((IT - 1) div 2) < int xs"
    and "0 \<le> int d + int a - int ((IT - 1) div 2) \<Longrightarrow>
           stencil_cell IT d a = nat (int d + int a - int ((IT - 1) div 2))"
proof -
  let ?z = "int d + int a - int ((IT - 1) div 2)"
  have lo: "- 1 \<le> ?z" using half_order(1)[OF assms(4)] by linarith
  have hi: "?z < 2 ^ 32" using assms(1,2,3) half_order(2)[OF assms(4)] by simp
  show pos: "stencil_cell IT d a = nat ?z" if "0 \<le> ?z"
    using that hi by (simp add: stencil_cell_def)
  show "stencil_cell IT d a < xs \<longleftrightarrow> 0 \<le> ?z \<and> ?z < int xs"
  proof (cases "0 \<le> ?z")
    case True
    then show ?thesis using pos[OF True] by (simp only: nat_less_iff) simp
  next
    case False
    then have "?z = - 1" using lo by linarith
    then have "stencil_cell IT d a = 4294967295" by (simp add: stencil_cell_def)
    then show ?thesis using False assms(2) by simp
  qed
qed

lemma ph_stencil_entry:
  assumes IT: "IT \<in> {1, 2, 3, 4}" and ok: "grid_ok xs ys" and "cq < xs" "cp < ys" "a < IT" "b < IT"
    and "icoeff IT xq = Some icq" "icoeff IT xp = Some icp"
  shows "ph IT xs ys (stencil_weights IT xq xp) cq cp a b = stencil_entry IT xs ys icq icp cq cp a b"
proof -
  let ?i = "int cq + int a - int ((IT - 1) div 2)"
  let ?j = "int cp + int b - int ((IT - 1) div 2)"
  have xs: "xs < 2 ^ 31" and ys: "ys < 2 ^ 31" and sz: "xs * ys < 2 ^ 32"
    using ok by (simp_all add: grid_ok_def)
  note ci = stencil_cell_int[OF assms(3) xs assms(5) IT]
  note cj = stencil_cell_int[OF assms(4) ys assms(6) IT]
  have w: "stencil_weights IT xq xp ! (a * IT + b) = icq ! a * icp ! b"
    using assms(5-8) by (simp add: stencil_weights_def assemble_nth)
  show ?thesis
  proof (cases "0 \<le> ?i \<and> ?i < int xs \<and> 0 \<le> ?j \<and> ?j < int ys")
    case True
    then have i: "stencil_cell IT cq a = nat ?i" and j: "stencil_cell IT cp b = nat ?j"
      using ci(2) cj(2) by simp_all
    have "nat ?i < xs" "nat ?j < ys" using True by linarith+
    then have "nat ?i * ys + nat ?j < xs * ys" by (rule digits_less)
    then have "(nat ?i * ys + nat ?j) mod 2 ^ 32 = nat ?i * ys + nat ?j" using sz by simp
    then show ?thesis
      using True ci(1) cj(1) w unfolding ph_def stencil_entry_def Let_def i j by simp
  next
    case False
    then show ?thesis
      using ci(1) cj(1) unfolding ph_def stencil_entry_def Let_def by auto
  qed
qed

lemma build_map_Some:
  assumes "build_loops rt IT xs ys c s (replicate (xs * ys * (IT * IT)) zero_hi) = Some tab"
  shows "build_map rt IT xs ys c s = Some \<lparr>xsize = xs, ysize = ys, ip = IT * IT, hinfo = tab\<rparr>"
  using assms by (simp add: build_map_def HeritageMap_def)

lemma build_map_entry:
  assumes IT: "IT \<in> {1, 2, 3, 4}" and ok: "grid_ok xs ys" and "q < xs" "p < ys" "a < IT" "b < IT"
    and sc: "src_cell rt xs ys c s q p = (cq, cp)" and sf: "src_frac rt xs ys c s q p = (xq, xp)"
    and "icoeff IT xq = Some icq" "icoeff IT xp = Some icp"
  shows "\<exists>tab. build_map rt IT xs ys c s = Some \<lparr>xsize = xs, ysize = ys, ip = IT * IT, hinfo = tab\<rparr> \<and>
           length tab = xs * ys * (IT * IT) \<and>
           tab ! pos3D ys (IT * IT) q p (a * IT + b) =
           (if cq < xs \<and> cp < ys then stencil_entry IT xs ys icq icp cq cp a b else zero_hi)"
proof -
  let ?tab0 = "replicate (xs * ys * (IT * IT)) zero_hi"
  have ab: "a * IT + b < IT * IT" using assms(5,6) by (intro digits_less)
  have k: "pos3D ys (IT * IT) q p (a * IT + b) < xs * ys * (IT * IT)"
    by (rule pos3D_less[OF assms(3,4) ab])
  obtain tab where tab: "build_loops rt IT xs ys c s ?tab0 = Some tab"
    and nth: "tab ! pos3D ys (IT * IT) q p (a * IT + b) =
           (if cq < xs \<and> cp < ys then ph IT xs ys (stencil_weights IT xq xp) cq cp a b
            else ?tab0 ! pos3D ys (IT * IT) q p (a * IT + b))"
    using build_loops_nth[OF IT assms(3-6) _ sc sf, of ?tab0] by auto
  have "length tab = xs * ys * (IT * IT)"
    using build_loops_length[OF IT tab] by simp
  moreover have "tab ! pos3D ys (IT * IT) q p (a * IT + b) =
           (if cq < xs \<and> cp < ys then stencil_entry IT xs ys icq icp cq cp a b else zero_hi)"
    using nth k ph_stencil_entry[OF IT ok _ _ assms(5,6,9,10)] by simp
  ultimately show ?thesis using build_map_Some[OF tab] by simp
qed

text \<open>
  Claim C6. For every target \<open>(q, p)\<close> whose source cell \<open>(cq, cp)\<close> is in range and every pair
  \<open>(a, b)\<close> of kernel offsets below the order, the constructor stores at place
  \<open>a * order + b\<close> of the row of the target the entry of the cell
  \<open>(cq + a - (order-1)/2, cp + b - (order-1)/2)\<close>: its flattened index and the weight
  \<open>icq[a] * icp[b]\<close> when the cell is inside the grid, the zero sentinel otherwise.
  It does so for every grid whose sizes fit the machine.
\<close>

theorem stencil_entries:
  assumes "IT \<in> {1, 2, 3, 4}" and "grid_ok xs ys" and "q < xs" and "p < ys"
    and "a < IT" and "b < IT"
    and "src_cell rt xs ys (cos angle) (- sin angle) q p = (cq, cp)"
    and "src_frac rt xs ys (cos angle) (- sin angle) q p = (xq, xp)"
    and "cq < xs" and "cp < ys"
  shows "\<exists>hm icq icp.
           RotationMap rt IT xs ys angle = Some hm \<and>
           icoeff IT xq = Some icq \<and> icoeff IT xp = Some icp \<and>
           hinfo hm ! pos3D ys (IT * IT) q p (a * IT + b) =
             stencil_entry IT xs ys icq icp cq cp a b"
proof -
  obtain icq where q: "icoeff IT xq = Some icq" using icoeff_Some[OF assms(1)] by blast
  obtain icp where p: "icoeff IT xp = Some icp" using icoeff_Some[OF assms(1)] by blast
  show ?thesis
    using build_map_entry[OF assms(1-8) q p] assms(9,10) q p
    by (auto simp: RotationMap_def)
qed

text \<open>
  A grid of two by two cells, linear interpolation, angle 0: the target \<open>(1, 1)\<close> has
  the source cell \<open>(1, 1)\<close>; the offsets \<open>(0, 0)\<close> give the cell itself, the offsets
  \<open>(1, 0)\<close> leave the grid.
\<close>

theorem stencil_entries_witness:
  "(2 :: nat) \<in> {1, 2, 3, 4} \<and> grid_ok 2 2 \<and>
   src_cell RT1 2 2 (cos 0) (- sin 0) 1 1 = (1, 1) \<and>
   src_frac RT1 2 2 (cos 0) (- sin 0) 1 1 = (0, 0) \<and>
   (\<exists>hm. RotationMap RT1 2 2 2 0 = Some hm \<and>
         hinfo hm ! 12 = \<lparr>index = 3, weight = 1\<rparr> \<and> hinfo hm ! 14 = zero_hi)"
proof -
  have sc: "src_cell RT1 2 2 (cos 0) (- sin 0) 1 1 = (1, 1)"
    by (simp add: src_cell_def rot_coords_def trunc_def to_uint_def)
  have sf: "src_frac RT1 2 2 (cos 0) (- sin 0) 1 1 = (0, 0)"
    by (simp add: src_frac_def rot_coords_def trunc_def)
  have ok: "grid_ok 2 2" by (simp add: grid_ok_def)
  have e0: "\<exists>hm icq icp. RotationMap RT1 2 2 2 0 = Some hm \<and>
           icoeff 2 0 = Some icq \<and> icoeff 2 0 = Some icp \<and>
           hinfo hm ! pos3D 2 (2 * 2) 1 1 (0 * 2 + 0) = stencil_entry 2 2 2 icq icp 1 1 0 0"
    by (rule stencil_entries[OF _ ok _ _ _ _ sc sf]) simp_all
  have e1: "\<exists>hm icq icp. RotationMap RT1 2 2 2 0 = Some hm \<and>
           icoeff 2 0 = Some icq \<and> icoeff 2 0 = Some icp \<and>
           hinfo hm ! pos3D 2 (2 * 2) 1 1 (1 * 2 + 0) = stencil_entry 2 2 2 icq icp 1 1 1 0"
    by (rule stencil_entries[OF _ ok _ _ _ _ sc sf]) simp_all
  from e0 e1 have "\<exists>hm. RotationMap RT1 2 2 2 0 = Some hm \<and>
         hinfo hm ! 12 = \<lparr>index = 3, weight = 1\<rparr> \<and> hinfo hm ! 14 = zero_hi"
    by (auto simp: icoeff_cases pos3D_def stencil_entry_def)
  with sc sf ok show ?thesis by simp
qed

subsection \<open>Rows of the built table\<close>

lemma build_map_total:
  assumes "IT \<in> {1, 2, 3, 4}"
  shows "\<exists>tab. build_map rt IT xs ys c s = Some \<lparr>xsize = xs, ysize = ys, ip = IT * IT, hinfo = tab\<rparr> \<and>
           length tab = xs * ys * (IT * IT)"
proof -
  let ?tab0 = "replicate (xs * ys * (IT * IT)) zero_hi"
  obtain tab where tab: "build_loops rt IT xs ys c s ?tab0 = Some tab"
    using build_loops_total[OF assms] by blast
  then have "length tab = xs * ys * (IT * IT)"
    using build_loops_length[OF assms tab] by simp
  with build_map_Some[OF tab] show ?thesis by blast
qed

lemma build_map_fields:
  assumes "IT \<in> {1, 2, 3, 4}" "build_map rt IT xs ys c s = Some hm"
  shows "xsize hm = xs" "ysize hm = ys" "ip hm = IT * IT" "length (hinfo hm) = xs * ys * (IT * IT)"
    "hm_size hm = xs * ys"
  using build_map_total[OF assms(1), of rt xs ys c s] assms(2) by (auto simp: hm_size_def)

lemma build_map_nth:
  assumes "IT \<in> {1, 2, 3, 4}" "grid_ok xs ys" "build_map rt IT xs ys c s = Some hm"
    and "q < xs" "p < ys" "a < IT" "b < IT"
    and "src_cell rt xs ys c s q p = (cq, cp)" "src_frac rt xs ys c s q p = (xq, xp)"
    and "icoeff IT xq = Some icq" "icoeff IT xp = Some icp"
  shows "hinfo hm ! pos3D ys (IT * IT) q p (a * IT + b) =
           (if cq < xs \<and> cp < ys then stencil_entry IT xs ys icq icp cq cp a b else zero_hi)"
  using build_map_entry[OF assms(1,2,4-11)] assms(3) by auto

lemma pos3D_decomp:
  assumes "k < xs * ys * (IT * IT)"
  obtains q p a b where "q < xs" "p < ys" "a < IT" "b < IT" "k = pos3D ys (IT * IT) q p (a * IT + b)"
proof -
  have IT: "0 < IT" and ys: "0 < ys" using assms by (auto intro: Nat.gr0I)
  let ?i = "k div (IT * IT)" and ?j = "k mod (IT * IT)"
  have i: "?i < xs * ys" using assms by (simp add: less_mult_imp_div_less)
  have j: "?j < IT * IT" using IT by simp
  show ?thesis
  proof
    show "?i div ys < xs" using i by (simp add: less_mult_imp_div_less)
    show "?i mod ys < ys" using ys by simp
    show "?j div IT < IT" using j by (simp add: less_mult_imp_div_less)
    show "?j mod IT < IT" using IT by simp
    show "k = pos3D ys (IT * IT) (?i div ys) (?i mod ys) (?j div IT * IT + ?j mod IT)"
      by (simp only: pos3D_def div_mult_mod_eq)
  qed
qed

lemma stencil_entry_index:
  assumes "0 < xs * ys"
  shows "index (stencil_entry IT xs ys icq icp cq cp a b) < xs * ys"
proof -
  let ?i = "int cq + int a - int ((IT - 1) div 2)"
  let ?j = "int cp + int b - int ((IT - 1) div 2)"
  show ?thesis
  proof (cases "0 \<le> ?i \<and> ?i < int xs \<and> 0 \<le> ?j \<and> ?j < int ys")
    case True
    then have "nat ?i < xs" "nat ?j < ys" by linarith+
    then have "nat ?i * ys + nat ?j < xs * ys" by (rule digits_less)
    with True show ?thesis unfolding stencil_entry_def Let_def by simp
  next
    case False
    then show ?thesis using assms unfolding stencil_entry_def Let_def by (auto simp: zero_hi_def)
  qed
qed

lemma build_map_wf:
  assumes IT: "IT \<in> {1, 2, 3, 4}" and ok: "grid_ok xs ys" and hm: "build_map rt IT xs ys c s = Some hm"
  shows "wf_map hm (xs * ys)"
proof -
  note f = build_map_fields[OF IT hm]
  have "index (hinfo hm ! k) < xs * ys" if kk: "k < xs * ys * (IT * IT)" for k
  proof -
    obtain q p a b where qp: "q < xs" "p < ys" "a < IT" "b < IT"
      and k: "k = pos3D ys (IT * IT) q p (a * IT + b)"
      by (rule pos3D_decomp[OF kk])
    have pos: "0 < xs * ys" using qp(1,2) by simp
    obtain cq cp where sc: "src_cell rt xs ys c s q p = (cq, cp)" by (cases "src_cell rt xs ys c s q p")
    obtain xq xp where sf: "src_frac rt xs ys c s q p = (xq, xp)" by (cases "src_frac rt xs ys c s q p")
    obtain icq where q: "icoeff IT xq = Some icq" using icoeff_Some[OF IT] by blast
    obtain icp where p: "icoeff IT xp = Some icp" using icoeff_Some[OF IT] by blast
    show ?thesis
      unfolding k build_map_nth[OF IT ok hm qp sc sf q p]
      using stencil_entry_index[OF pos] pos by (simp add: zero_hi_def)
  qed
  then show ?thesis using f by (simp add: wf_map_def list_all_length)
qed

lemma sum_digits:
  fixes f :: "nat \<Rightarrow> 'a::comm_monoid_add"
  shows "(\<Sum>k<m * n. f k) = (\<Sum>a<m. \<Sum>b<n. f (a * n + b))"
proof -
  have "(\<Sum>a<m. \<Sum>b<n. f (a * n + b)) = (\<Sum>a<m. sum f {a * n..<a * n + n})"
  proof (rule sum.cong[OF refl])
    fix a
    have "sum f {a * n..<a * n + n} = sum f {0 + a * n..<n + a * n}" by (simp add: add.commute)
    also have "\<dots> = (\<Sum>b = 0..<n. f (b + a * n))" by (rule sum.shift_bounds_nat_ivl)
    finally show "(\<Sum>b<n. f (a * n + b)) = sum f {a * n..<a * n + n}"
      by (simp add: add.commute atLeast0LessThan)
  qed
  also have "\<dots> = sum f {..<m * n}" by (rule sum.nat_group)
  finally show ?thesis by simp
qed

lemma pos1D_pos3D: "pos1D n (q * ys + p) k = pos3D ys n q p k"
  by (simp add: pos1D_def pos3D_def)

lemma built_row_sum:
  assumes IT: "IT \<in> {1, 2, 3, 4}" and ok: "grid_ok xs ys" and hm: "build_map rt IT xs ys c s = Some hm"
    and "q < xs" "p < ys"
    and "src_cell rt xs ys c s q p = (cq, cp)" "src_frac rt xs ys c s q p = (xq, xp)"
    and "icoeff IT xq = Some icq" "icoeff IT xp = Some icp"
  shows "row_sum hm d (q * ys + p) =
         (\<Sum>a<IT. \<Sum>b<IT. d ! index (if cq < xs \<and> cp < ys then stencil_entry IT xs ys icq icp cq cp a b else zero_hi)
                          * weight (if cq < xs \<and> cp < ys then stencil_entry IT xs ys icq icp cq cp a b else zero_hi))"
proof -
  note f = build_map_fields[OF IT hm]
  show ?thesis
    unfolding row_sum_def f(3) sum_digits pos1D_pos3D
    by (intro sum.cong refl) (simp add: build_map_nth[OF IT ok hm assms(4,5) _ _ assms(6-9)])
qed

lemma sum_list_lessThan: "sum_list xs = (\<Sum>i<length xs. xs ! i)"
  by (simp add: sum_list_sum_nth atLeast0LessThan)

lemma stencil_entry_inside:
  assumes "0 \<le> int cq + int a - int ((IT - 1) div 2)" "int cq + int a - int ((IT - 1) div 2) < int xs"
    and "0 \<le> int cp + int b - int ((IT - 1) div 2)" "int cp + int b - int ((IT - 1) div 2) < int ys"
  shows "stencil_entry IT xs ys icq icp cq cp a b =
         \<lparr>index = nat (int cq + int a - int ((IT - 1) div 2)) * ys
                  + nat (int cp + int b - int ((IT - 1) div 2)),
          weight = icq ! a * icp ! b\<rparr>"
  using assms unfolding stencil_entry_def Let_def by simp

section \<open>The saturating block\<close>

lemma src_val_wf:
  assumes "wf_map hm (length d)" "i < hm_size hm" "k < ip hm"
  shows "src_val hm d i k = Some (d ! index (hinfo hm ! pos1D (ip hm) i k))"
  using wf_map_rd[OF assms] by (simp add: src_val_def rd_def)

lemma sat_bounds_eq:
  assumes "src_val hm d i (IT + 1) = Some v1" "src_val hm d i (IT + 2) = Some v2"
    and "src_val hm d i (2 * IT + 1) = Some v3" "src_val hm d i (2 * IT + 2) = Some v4"
  shows "sat_bounds IT lmin lmax hm d i =
         Some (max (max (max (max lmin v1) v2) v3) v4, min (min (min (min lmax v1) v2) v3) v4)"
proof -
  have u: "[Suc 0..<3] = [Suc 0, 2]" by (simp add: upt_rec)
  show ?thesis using assms by (simp add: sat_bounds_def u sat_step_def)
qed

lemma sat_bounds_ring:
  assumes "wf_map hm (length d)" "i < hm_size hm" "2 * IT + 2 < ip hm"
  shows "sat_bounds IT lmin lmax hm d i =
         Some (max lmin (Max (set (samples hm d i (ring_places IT)))),
               min lmax (Min (set (samples hm d i (ring_places IT)))))"
proof -
  have k: "IT + 1 < ip hm" "IT + 2 < ip hm" "2 * IT + 1 < ip hm" "2 * IT + 2 < ip hm"
    using assms(3) by simp_all
  show ?thesis
    unfolding sat_bounds_eq[OF src_val_wf[OF assms(1,2) k(1)] src_val_wf[OF assms(1,2) k(2)]
        src_val_wf[OF assms(1,2) k(3)] src_val_wf[OF assms(1,2) k(4)]]
    by (simp add: samples_def ring_places_def max.assoc min.assoc)
qed

lemma apply_cell_sat:
  assumes "wf_map hm (length d)" "i < hm_size hm" "saturating cfg" "2 * interpol_type cfg + 2 < ip hm"
  shows "apply_cell cfg hm d i =
         Some (clamp_ring cfg (samples hm d i (ring_places (interpol_type cfg))) (row_sum hm d i))"
  using assms(3) accumulate_row_sum[OF assms(1,2)] sat_bounds_ring[OF assms(1,2,4)]
  by (simp add: apply_cell_def clamp_ring_def)

lemma apply_cell_plain:
  assumes "wf_map hm (length d)" "i < hm_size hm" "\<not> saturating cfg"
  shows "apply_cell cfg hm d i = Some (row_sum hm d i)"
  using assms(3) accumulate_row_sum[OF assms(1,2)] by (simp add: apply_cell_def)

lemma clamp_ring_bounds:
  assumes "vs \<noteq> []"
  shows "Min (set vs) \<le> limit_max cfg \<Longrightarrow> Min (set vs) \<le> clamp_ring cfg vs s"
    and "limit_min cfg \<le> Max (set vs) \<Longrightarrow> clamp_ring cfg vs s \<le> Max (set vs)"
proof -
  have mm: "Min (set vs) \<le> Max (set vs)" using assms by simp
  show "Min (set vs) \<le> clamp_ring cfg vs s" if "Min (set vs) \<le> limit_max cfg"
    using that by (simp add: clamp_ring_def min_absorb2)
  show "clamp_ring cfg vs s \<le> Max (set vs)" if "limit_min cfg \<le> Max (set vs)"
    using that mm by (simp add: clamp_ring_def max_absorb2)
qed

lemma apply_map_sat:
  assumes "wf_map hm (length d)" "length dout = hm_size hm" "saturating cfg"
    and "2 * interpol_type cfg + 2 < ip hm"
  shows "apply_map cfg hm d dout =
         Some (map (\<lambda>i. clamp_ring cfg (samples hm d i (ring_places (interpol_type cfg))) (row_sum hm d i))
                 [0..<hm_size hm])"
  by (rule apply_map_cells[OF _ assms(2)]) (rule apply_cell_sat[OF assms(1) _ assms(3,4)])

text \<open>
  Claim C3, as amended. With saturation enabled (and a kernel of at least three points,
  so that the places read lie in the row) the output at every target \<open>i\<close> lies between
  the least and the greatest of the input samples at the places \<open>order + 1\<close>,
  \<open>order + 2\<close>, \<open>2 * order + 1\<close>, \<open>2 * order + 2\<close> of row \<open>i\<close>: not below the least of
  them when that is at most the start value of the floor, not above the greatest of
  them when that is at least the start value of the ceiling.
\<close>

theorem saturation_bound:
  assumes "wf_map hm (length data_in)" and "length data_out = hm_size hm"
    and "saturating cfg" and "2 * interpol_type cfg + 2 < ip hm"
  shows "\<exists>out. apply_map cfg hm data_in data_out = Some out \<and> length out = hm_size hm \<and>
           (\<forall>i<hm_size hm.
              (Min (set (samples hm data_in i (ring_places (interpol_type cfg)))) \<le> limit_max cfg \<longrightarrow>
               Min (set (samples hm data_in i (ring_places (interpol_type cfg)))) \<le> out ! i) \<and>
              (limit_min cfg \<le> Max (set (samples hm data_in i (ring_places (interpol_type cfg)))) \<longrightarrow>
               out ! i \<le> Max (set (samples hm data_in i (ring_places (interpol_type cfg))))))"
proof -
  have ne: "samples hm data_in i (ring_places (interpol_type cfg)) \<noteq> []" for i
    by (simp add: samples_def ring_places_def)
  show ?thesis
    unfolding apply_map_sat[OF assms]
    using clamp_ring_bounds[OF ne] by simp
qed

lemma ring_example_built:
  "build_map RT1 4 2 3 (cos (pi / 2)) (- sin (pi / 2)) = Some ring_example"
  using build_map_total[of 4 RT1 2 3 "cos (pi / 2)" "- sin (pi / 2)"]
  by (auto simp: ring_example_def RotationMap_def)

lemma ring_example_cell:
  "src_cell RT1 2 3 (cos (pi / 2)) (- sin (pi / 2)) 1 1 = (0, 1)"
  "src_frac RT1 2 3 (cos (pi / 2)) (- sin (pi / 2)) 1 1 = (1 / 2, 1 / 2)"
  by (simp_all add: src_cell_def src_frac_def rot_coords_def trunc_def to_uint_def)

lemma ring_example_entry:
  assumes "a < 4" "b < 4"
  shows "hinfo ring_example ! (64 + (a * 4 + b)) =
         stencil_entry 4 2 3 [- 1 / 16, 9 / 16, 9 / 16, - 1 / 16] [- 1 / 16, 9 / 16, 9 / 16, - 1 / 16] 0 1 a b"
proof -
  have ok: "grid_ok 2 3" by (simp add: grid_ok_def)
  have ic: "icoeff 4 (1 / 2) = Some [- 1 / 16, 9 / 16, 9 / 16, - 1 / 16]"
    by (simp add: icoeff_cases)
  show ?thesis
    using build_map_nth[OF _ ok ring_example_built _ _ assms ring_example_cell ic ic]
    by (simp add: pos3D_def)
qed

lemma ring_example_entries:
  "hinfo ring_example ! 68 = \<lparr>index = 0, weight = - 9 / 256\<rparr>"
  "hinfo ring_example ! 69 = \<lparr>index = 1, weight = 81 / 256\<rparr>"
  "hinfo ring_example ! 70 = \<lparr>index = 2, weight = 81 / 256\<rparr>"
  "hinfo ring_example ! 72 = \<lparr>index = 3, weight = - 9 / 256\<rparr>"
  "hinfo ring_example ! 73 = \<lparr>index = 4, weight = 81 / 256\<rparr>"
  "hinfo ring_example ! 74 = \<lparr>index = 5, weight = 81 / 256\<rparr>"
  using ring_example_entry[of 1 0] ring_example_entry[of 1 1] ring_example_entry[of 1 2]
    ring_example_entry[of 2 0] ring_example_entry[of 2 1] ring_example_entry[of 2 2]
  by (simp_all add: stencil_entry_def)

lemma four: "{..<4::nat} = {0, 1, 2, 3}" by auto

lemma ring_example_sum: "row_sum ring_example [0, 0, 256, 0, 0, 0] 4 = 81"
proof -
  have ok: "grid_ok 2 3" by (simp add: grid_ok_def)
  have ic: "icoeff 4 (1 / 2) = Some [- 1 / 16, 9 / 16, 9 / 16, - 1 / 16]"
    by (simp add: icoeff_cases)
  show ?thesis
    using built_row_sum[OF _ ok ring_example_built _ _ ring_example_cell ic ic, of "[0, 0, 256, 0, 0, 0]"]
    by (simp add: four stencil_entry_def zero_hi_def)
qed

text \<open>
  The claim C3 as the spec states it, with the places \<open>order\<close>, \<open>order + 1\<close>,
  \<open>2 * order\<close>, \<open>2 * order + 1\<close>, fails: after a quarter turn on two by three cells the
  target \<open>(1, 1)\<close> takes 81 from an input whose samples at those places are all 0.
\<close>

theorem saturation_ring_counterexample:
  "RotationMap RT1 4 2 3 (pi / 2) = Some ring_example \<and>
   apply_map ring_config ring_example [0, 0, 256, 0, 0, 0] [0, 0, 0, 0, 0, 0] \<noteq> None \<and>
   the (apply_map ring_config ring_example [0, 0, 256, 0, 0, 0] [0, 0, 0, 0, 0, 0]) ! 4 = 81 \<and>
   samples ring_example [0, 0, 256, 0, 0, 0] 4 (claimed_places 4) = [0, 0, 0, 0] \<and>
   \<not> the (apply_map ring_config ring_example [0, 0, 256, 0, 0, 0] [0, 0, 0, 0, 0, 0]) ! 4
       \<le> Max (set (samples ring_example [0, 0, 256, 0, 0, 0] 4 (claimed_places 4)))"
proof -
  let ?d = "[0, 0, 256, 0, 0, 0 :: real]"
  have ok: "grid_ok 2 3" by (simp add: grid_ok_def)
  note f = build_map_fields[OF _ ring_example_built]
  have l6: "length ?d = 2 * 3" by simp
  have wf: "wf_map ring_example (length ?d)"
    unfolding l6 by (rule build_map_wf[OF _ ok ring_example_built]) simp
  have len: "length [0, 0, 0, 0, 0, 0 :: real] = hm_size ring_example" by (simp add: f)
  have sat: "saturating ring_config" "2 * interpol_type ring_config + 2 < ip ring_example"
    by (simp_all add: ring_config_def f)
  have six: "[0..<6] = [0, 1, 2, 3, 4, 5]" by (simp add: upt_rec)
  have ap: "apply_map ring_config ring_example ?d [0, 0, 0, 0, 0, 0] =
         Some (map (\<lambda>i. clamp_ring ring_config (samples ring_example ?d i (ring_places (interpol_type ring_config)))
                        (row_sum ring_example ?d i)) [0..<hm_size ring_example])"
    by (rule apply_map_sat[OF wf len sat])
  have ring: "samples ring_example ?d 4 (ring_places 4) = [0, 256, 0, 0]"
    by (simp add: samples_def ring_places_def pos1D_def f ring_example_entries)
  have claimed: "samples ring_example ?d 4 (claimed_places 4) = [0, 0, 0, 0]"
    by (simp add: samples_def claimed_places_def pos1D_def f ring_example_entries)
  have out: "the (apply_map ring_config ring_example ?d [0, 0, 0, 0, 0, 0]) ! 4 = 81"
    unfolding ap by (simp add: f six ring ring_example_sum clamp_ring_def) (simp add: ring_config_def ring)
  show ?thesis
    using ring_example_built ap out claimed by (simp add: RotationMap_def)
qed

text \<open>The same target and input: the samples at the places read are 0, 256, 0, 0.\<close>

theorem saturation_bound_witness:
  "wf_map ring_example (length [0, 0, 256, 0, 0, 0 :: real]) \<and>
   length [0, 0, 0, 0, 0, 0 :: real] = hm_size ring_example \<and>
   saturating ring_config \<and> 2 * interpol_type ring_config + 2 < ip ring_example \<and>
   samples ring_example [0, 0, 256, 0, 0, 0] 4 (ring_places (interpol_type ring_config)) = [0, 256, 0, 0] \<and>
   (\<exists>out. apply_map ring_config ring_example [0, 0, 256, 0, 0, 0] [0, 0, 0, 0, 0, 0] = Some out \<and>
          0 \<le> out ! 4 \<and> out ! 4 \<le> 256)"
proof -
  let ?d = "[0, 0, 256, 0, 0, 0 :: real]"
  have ok: "grid_ok 2 3" by (simp add: grid_ok_def)
  note f = build_map_fields[OF _ ring_example_built]
  have l6: "length ?d = 2 * 3" by simp
  have wf: "wf_map ring_example (length ?d)"
    unfolding l6 by (rule build_map_wf[OF _ ok ring_example_built]) simp
  have len: "length [0, 0, 0, 0, 0, 0 :: real] = hm_size ring_example" by (simp add: f)
  have sat: "saturating ring_config" "2 * interpol_type ring_config + 2 < ip ring_example"
    by (simp_all add: ring_config_def f)
  have ring: "samples ring_example ?d 4 (ring_places (interpol_type ring_config)) = [0, 256, 0, 0]"
    by (simp add: samples_def ring_places_def pos1D_def f ring_example_entries ring_config_def)
  have i: "4 < hm_size ring_example" by (simp add: f)
  obtain out where out: "apply_map ring_config ring_example ?d [0, 0, 0, 0, 0, 0] = Some out"
    and b: "\<forall>i<hm_size ring_example.
              (Min (set (samples ring_example ?d i (ring_places (interpol_type ring_config)))) \<le> limit_max ring_config \<longrightarrow>
               Min (set (samples ring_example ?d i (ring_places (interpol_type ring_config)))) \<le> out ! i) \<and>
              (limit_min ring_config \<le> Max (set (samples ring_example ?d i (ring_places (interpol_type ring_config)))) \<longrightarrow>
               out ! i \<le> Max (set (samples ring_example ?d i (ring_places (interpol_type ring_config)))))"
    using saturation_bound[OF wf len sat] by blast
  have "0 \<le> out ! 4 \<and> out ! 4 \<le> 256"
    using b[rule_format, OF i] unfolding ring by (simp add: ring_config_def)
  with wf len sat ring out show ?thesis by blast
qed

section \<open>The identity transform\<close>

lemma icoeff_zero:
  assumes "IT \<in> {1, 2, 3, 4}"
  shows "icoeff IT 0 = Some (map (\<lambda>k. if k = (IT - 1) div 2 then 1 else 0) [0..<IT])"
  using assms
proof (cases rule: IT_cases)
  case 1
  then show ?thesis by (simp add: icoeff_cases)
next
  case 2
  then show ?thesis by (simp add: icoeff_cases upt_small)
next
  case 3
  then show ?thesis by (simp add: icoeff_cases upt_small)
next
  case 4
  then show ?thesis by (simp add: icoeff_cases upt_small)
qed

lemma half_less:
  assumes "IT \<in> {1, 2, 3, 4 :: nat}"
  shows "(IT - 1) div 2 < IT"
  using assms by auto

lemma identity_cell:
  assumes "rot_coords rt xs ys c s q p = (real q, real p)" "q < xs" "p < ys" "grid_ok xs ys"
  shows "src_cell rt xs ys c s q p = (q, p)" "src_frac rt xs ys c s q p = (0, 0)"
proof -
  have "q < 2 ^ 32" "p < 2 ^ 32" using assms(2-4) by (simp_all add: grid_ok_def)
  then have "int q mod 2 ^ 32 = int q" "int p mod 2 ^ 32 = int p" by simp_all
  then show "src_cell rt xs ys c s q p = (q, p)"
    using assms(1) by (simp add: src_cell_def trunc_def to_uint_def)
  show "src_frac rt xs ys c s q p = (0, 0)"
    using assms(1) by (simp add: src_frac_def trunc_def)
qed

lemma unit_nth:
  assumes "a < IT"
  shows "map (\<lambda>k. if k = c then 1 else (0 :: real)) [0..<IT] ! a = (if a = c then 1 else 0)"
  using assms by simp

lemma identity_weight:
  assumes "q < xs" "p < ys" "a < IT" "b < IT"
  defines "e \<equiv> map (\<lambda>k. if k = (IT - 1) div 2 then 1 else (0 :: real)) [0..<IT]"
  shows "weight (stencil_entry IT xs ys e e q p a b) =
         (if a = (IT - 1) div 2 \<and> b = (IT - 1) div 2 then 1 else 0)"
proof -
  let ?i = "int q + int a - int ((IT - 1) div 2)"
  let ?j = "int p + int b - int ((IT - 1) div 2)"
  have e: "e ! a = (if a = (IT - 1) div 2 then 1 else 0)" "e ! b = (if b = (IT - 1) div 2 then 1 else 0)"
    unfolding e_def using assms(3,4) by (simp_all only: unit_nth)
  show ?thesis
  proof (cases "0 \<le> ?i \<and> ?i < int xs \<and> 0 \<le> ?j \<and> ?j < int ys")
    case True
    then have "stencil_entry IT xs ys e e q p a b =
               \<lparr>index = nat ?i * ys + nat ?j, weight = e ! a * e ! b\<rparr>"
      unfolding stencil_entry_def Let_def by (rule if_P)
    then have "weight (stencil_entry IT xs ys e e q p a b) = e ! a * e ! b" by simp
    then show ?thesis by (simp add: e)
  next
    case False
    then have "stencil_entry IT xs ys e e q p a b = zero_hi"
      unfolding stencil_entry_def Let_def by (rule if_not_P)
    then have w: "weight (stencil_entry IT xs ys e e q p a b) = 0" by (simp add: zero_hi_def)
    have "\<not> (a = (IT - 1) div 2 \<and> b = (IT - 1) div 2)"
    proof
      assume "a = (IT - 1) div 2 \<and> b = (IT - 1) div 2"
      then have "?i = int q" "?j = int p" by simp_all
      with False assms(1,2) show False by simp
    qed
    with w show ?thesis by simp
  qed
qed

lemma identity_index:
  assumes "q < xs" "p < ys"
  shows "index (stencil_entry IT xs ys e e' q p ((IT - 1) div 2) ((IT - 1) div 2)) = q * ys + p"
  using assms unfolding stencil_entry_def Let_def by simp

lemma sum_delta2:
  fixes u :: real and c n :: nat
  assumes "c < n"
  shows "(\<Sum>a<n. \<Sum>b<n. if a = c \<and> b = c then u else w a b * 0) = u"
proof -
  have "(\<Sum>a<n. \<Sum>b<n. if a = c \<and> b = c then u else w a b * 0)
        = (\<Sum>a<n. if a = c then (\<Sum>b<n. if b = c then u else 0) else 0)"
    by (intro sum.cong refl) (simp cong: if_cong)
  also have "\<dots> = (\<Sum>a<n. if a = c then u else 0)"
    using assms by (intro sum.cong refl) simp
  also have "\<dots> = u" using assms by simp
  finally show ?thesis .
qed

lemma identity_row_sum:
  assumes IT: "IT \<in> {1, 2, 3, 4}" and ok: "grid_ok xs ys" and hm: "build_map rt IT xs ys c s = Some hm"
    and "q < xs" "p < ys" and id: "rot_coords rt xs ys c s q p = (real q, real p)"
  shows "row_sum hm d (q * ys + p) = d ! (q * ys + p)"
proof -
  let ?e = "map (\<lambda>k. if k = (IT - 1) div 2 then 1 else (0 :: real)) [0..<IT]"
  note cell = identity_cell[OF id assms(4,5) ok]
  have "row_sum hm d (q * ys + p) =
        (\<Sum>a<IT. \<Sum>b<IT. d ! index (stencil_entry IT xs ys ?e ?e q p a b)
                          * weight (stencil_entry IT xs ys ?e ?e q p a b))"
    using built_row_sum[OF IT ok hm assms(4,5) cell icoeff_zero[OF IT] icoeff_zero[OF IT], of d]
      assms(4,5) by simp
  also have "\<dots> = (\<Sum>a<IT. \<Sum>b<IT. if a = (IT - 1) div 2 \<and> b = (IT - 1) div 2 then d ! (q * ys + p)
                    else d ! index (stencil_entry IT xs ys ?e ?e q p a b) * 0)"
  proof (intro sum.cong refl)
    fix a b assume "a \<in> {..<IT}" "b \<in> {..<IT}"
    then have ab: "a < IT" "b < IT" by simp_all
    show "d ! index (stencil_entry IT xs ys ?e ?e q p a b) * weight (stencil_entry IT xs ys ?e ?e q p a b)
        = (if a = (IT - 1) div 2 \<and> b = (IT - 1) div 2 then d ! (q * ys + p)
           else d ! index (stencil_entry IT xs ys ?e ?e q p a b) * 0)"
      using identity_weight[OF assms(4,5) ab] identity_index[OF assms(4,5), of IT ?e ?e] by simp
  qed
  also have "\<dots> = d ! (q * ys + p)"
    by (rule sum_delta2[OF half_less[OF IT]])
  finally show ?thesis .
qed

lemma clamp_ring_member:
  assumes "s \<in> set vs"
  shows "clamp_ring cfg vs s = s"
proof -
  have "Min (set vs) \<le> s" "s \<le> Max (set vs)" using assms by simp_all
  then show ?thesis by (simp add: clamp_ring_def min_def max_def)
qed

lemma cell_decomp:
  fixes i xs ys :: nat
  assumes "i < xs * ys"
  obtains q p where "q < xs" "p < ys" "i = q * ys + p"
proof
  have ys: "0 < ys" using assms by (auto intro: Nat.gr0I)
  show "i div ys < xs" using assms by (simp add: less_mult_imp_div_less)
  show "i mod ys < ys" using ys by simp
  show "i = i div ys * ys + i mod ys" by simp
qed

lemma identity_ring:
  assumes IT: "IT \<in> {1, 2, 3, 4}" and ok: "grid_ok xs ys" and hm: "build_map rt IT xs ys c s = Some hm"
    and "q < xs" "p < ys" and id: "rot_coords rt xs ys c s q p = (real q, real p)" and "3 \<le> IT"
  shows "d ! (q * ys + p) \<in> set (samples hm d (q * ys + p) (ring_places IT))"
proof -
  let ?e = "map (\<lambda>k. if k = (IT - 1) div 2 then 1 else (0 :: real)) [0..<IT]"
  note cell = identity_cell[OF id assms(4,5) ok]
  note f = build_map_fields[OF IT hm]
  have c: "(IT - 1) div 2 = 1" and one: "1 < IT" using IT assms(7) by auto
  have "hinfo hm ! pos3D ys (IT * IT) q p (1 * IT + 1) = stencil_entry IT xs ys ?e ?e q p 1 1"
    using build_map_nth[OF IT ok hm assms(4,5) one one cell icoeff_zero[OF IT] icoeff_zero[OF IT]]
      assms(4,5) by simp
  then have "index (hinfo hm ! pos1D (ip hm) (q * ys + p) (IT + 1)) = q * ys + p"
    using identity_index[OF assms(4,5), of IT ?e ?e] c by (simp add: f pos1D_pos3D)
  then show ?thesis by (simp add: samples_def ring_places_def)
qed

text \<open>
  Where the coordinates that the constructor computes for every target are those of the
  target itself (\<^verbatim>\<open>ROTATION_TYPE 1\<close> at angle 0; \<^verbatim>\<open>ROTATION_TYPE 2\<close> as well, in exact
  arithmetic), every source cell is the target and both fractional offsets are 0, the
  coefficients of an axis are 1 at the place of the source cell and 0 elsewhere, and
  apply gives every field back, provided that with saturation enabled the kernel has
  three or four points, for which the places read lie in the row.
\<close>

theorem identity_transform:
  assumes "IT \<in> {1, 2, 3, 4}" and "grid_ok xs ys"
    and "\<forall>q<xs. \<forall>p<ys. rot_coords rt xs ys (cos angle) (- sin angle) q p = (real q, real p)"
    and "length data_in = xs * ys" and "length data_out = xs * ys"
    and "saturating cfg \<longrightarrow> interpol_type cfg = IT \<and> 3 \<le> IT"
  shows "\<exists>hm. RotationMap rt IT xs ys angle = Some hm \<and>
              apply_map cfg hm data_in data_out = Some data_in \<and>
              (\<forall>q<xs. \<forall>p<ys. src_cell rt xs ys (cos angle) (- sin angle) q p = (q, p) \<and>
                             src_frac rt xs ys (cos angle) (- sin angle) q p = (0, 0)) \<and>
              icoeff IT 0 = Some (map (\<lambda>k. if k = (IT - 1) div 2 then 1 else 0) [0..<IT])"
proof -
  let ?c = "cos angle" and ?s = "- sin angle"
  obtain hm where hm: "build_map rt IT xs ys ?c ?s = Some hm"
    using build_map_total[OF assms(1)] by blast
  note f = build_map_fields[OF assms(1) hm]
  have wf: "wf_map hm (length data_in)"
    using build_map_wf[OF assms(1,2) hm] assms(4) by simp
  have len: "length data_out = hm_size hm" using assms(5) f by simp
  have rs: "row_sum hm data_in i = data_in ! i" if i: "i < xs * ys" for i
  proof -
    obtain q p where qp: "q < xs" "p < ys" "i = q * ys + p" by (rule cell_decomp[OF i])
    show ?thesis
      unfolding qp(3) using identity_row_sum[OF assms(1,2) hm qp(1,2)] assms(3) qp(1,2) by simp
  qed
  have cells: "apply_cell cfg hm data_in i = Some (data_in ! i)" if i: "i < hm_size hm" for i
  proof (cases "saturating cfg")
    case False
    then show ?thesis using apply_cell_plain[OF wf i] rs i f by simp
  next
    case True
    then have IT: "interpol_type cfg = IT" "3 \<le> IT" using assms(6) by simp_all
    have "2 * IT + 2 < IT * IT" using IT(2) assms(1) by auto
    then have r: "2 * interpol_type cfg + 2 < ip hm" using IT f by simp
    obtain q p where qp: "q < xs" "p < ys" "i = q * ys + p"
      using i f by (auto elim: cell_decomp)
    have "data_in ! i \<in> set (samples hm data_in i (ring_places IT))"
      unfolding qp(3) using identity_ring[OF assms(1,2) hm qp(1,2) _ IT(2)] assms(3) qp(1,2) by simp
    then show ?thesis
      using apply_cell_sat[OF wf i True r] rs i f IT by (simp add: clamp_ring_member)
  qed
  have "apply_map cfg hm data_in data_out = Some (map (\<lambda>i. data_in ! i) [0..<hm_size hm])"
    by (rule apply_map_cells[OF cells len])
  also have "map (\<lambda>i. data_in ! i) [0..<hm_size hm] = data_in"
    using map_nth[of data_in] assms(4) f by simp
  finally have ap: "apply_map cfg hm data_in data_out = Some data_in" .
  have "src_cell rt xs ys ?c ?s q p = (q, p) \<and> src_frac rt xs ys ?c ?s q p = (0, 0)"
    if "q < xs" "p < ys" for q p
    using identity_cell[OF _ that assms(2)] assms(3) that by simp
  then show ?thesis
    using hm ap icoeff_zero[OF assms(1)] by (auto simp: RotationMap_def)
qed

text \<open>
  With angle 0 the transform is the identity for \<^verbatim>\<open>ROTATION_TYPE\<close> 1 and 2. For
  \<^verbatim>\<open>ROTATION_TYPE\<close> 3 the division of integers makes it a different map.
\<close>

lemma rot_coords_identity:
  "rot_coords RT1 xs ys (cos 0) (- sin 0) q p = (real q, real p)"
  "0 < xs \<Longrightarrow> 0 < ys \<Longrightarrow> rot_coords RT2 xs ys (cos 0) (- sin 0) q p = (real q, real p)"
  by (simp_all add: rot_coords_def field_simps)

text \<open>Two by two cells, the kernel of four points, saturation enabled, angle 0.\<close>

theorem identity_transform_witness:
  "(4 :: nat) \<in> {1, 2, 3, 4} \<and> grid_ok 2 2 \<and>
   rot_coords RT1 2 2 (cos 0) (- sin 0) 0 0 = (real 0, real 0) \<and>
   rot_coords RT1 2 2 (cos 0) (- sin 0) 0 1 = (real 0, real 1) \<and>
   rot_coords RT1 2 2 (cos 0) (- sin 0) 1 0 = (real 1, real 0) \<and>
   rot_coords RT1 2 2 (cos 0) (- sin 0) 1 1 = (real 1, real 1) \<and>
   (\<exists>hm. RotationMap RT1 4 2 2 0 = Some hm \<and>
         apply_map \<lparr>interpol_type = 4, saturating = True, limit_min = 1 / 1024, limit_max = 1024\<rparr>
           hm [1, 2, 3, 4] [0, 0, 0, 0] = Some [1, 2, 3, 4]) \<and>
   icoeff 4 0 = Some [0, 1, 0, 0]"
proof -
  have ok: "grid_ok 2 2" by (simp add: grid_ok_def)
  have id: "\<forall>q<2. \<forall>p<2. rot_coords RT1 2 2 (cos 0) (- sin 0) q p = (real q, real p)"
    by (simp add: rot_coords_def)
  have "\<exists>hm. RotationMap RT1 4 2 2 0 = Some hm \<and>
              apply_map \<lparr>interpol_type = 4, saturating = True, limit_min = 1 / 1024, limit_max = 1024\<rparr>
                hm [1, 2, 3, 4] [0, 0, 0, 0] = Some [1, 2, 3, 4] \<and>
              (\<forall>q<2. \<forall>p<2. src_cell RT1 2 2 (cos 0) (- sin 0) q p = (q, p) \<and>
                             src_frac RT1 2 2 (cos 0) (- sin 0) q p = (0, 0)) \<and>
              icoeff 4 0 = Some (map (\<lambda>k. if k = (4 - 1) div 2 then 1 else 0) [0..<4])"
    by (rule identity_transform[OF _ ok id]) simp_all
  then have "(\<exists>hm. RotationMap RT1 4 2 2 0 = Some hm \<and>
         apply_map \<lparr>interpol_type = 4, saturating = True, limit_min = 1 / 1024, limit_max = 1024\<rparr>
           hm [1, 2, 3, 4] [0, 0, 0, 0] = Some [1, 2, 3, 4]) \<and>
      icoeff 4 0 = Some [0, 1, 0, 0]"
    by (auto simp: upt_small)
  with ok show ?thesis by (simp add: rot_coords_def)
qed

section \<open>Targets with a source cell outside the grid\<close>

text \<open>
  A target whose source cell fails the test of the constructor keeps the row that the
  base class has left; without the saturating block apply gives 0 there.
\<close>

lemma outside_row:
  assumes IT: "IT \<in> {1, 2, 3, 4}" and ok: "grid_ok xs ys" and hm: "build_map rt IT xs ys c s = Some hm"
    and "q < xs" "p < ys" and sc: "src_cell rt xs ys c s q p = (cq, cp)"
    and out: "\<not> (cq < xs \<and> cp < ys)" and k: "k < IT * IT"
  shows "hinfo hm ! pos1D (ip hm) (q * ys + p) k = zero_hi"
proof -
  have IT0: "0 < IT" using IT by auto
  obtain xq xp where sf: "src_frac rt xs ys c s q p = (xq, xp)" by (cases "src_frac rt xs ys c s q p")
  obtain icq where iq: "icoeff IT xq = Some icq" using icoeff_Some[OF IT] by blast
  obtain icp where ip: "icoeff IT xp = Some icp" using icoeff_Some[OF IT] by blast
  have a: "k div IT < IT" using k by (simp add: less_mult_imp_div_less)
  have b: "k mod IT < IT" using IT0 by simp
  have "hinfo hm ! pos3D ys (IT * IT) q p (k div IT * IT + k mod IT) = zero_hi"
    using build_map_nth[OF IT ok hm assms(4,5) a b sc sf iq ip] out by simp
  then show ?thesis by (simp add: build_map_fields[OF IT hm] pos1D_pos3D)
qed

lemma outside_row_sum:
  assumes IT: "IT \<in> {1, 2, 3, 4}" and ok: "grid_ok xs ys" and hm: "build_map rt IT xs ys c s = Some hm"
    and "q < xs" "p < ys" and sc: "src_cell rt xs ys c s q p = (cq, cp)"
    and out: "\<not> (cq < xs \<and> cp < ys)"
  shows "row_sum hm d (q * ys + p) = 0"
  unfolding row_sum_def
proof (rule sum.neutral, rule ballI)
  fix k assume "k \<in> {..<ip hm}"
  then have "k < IT * IT" by (simp add: build_map_fields[OF IT hm])
  then show "d ! index (hinfo hm ! pos1D (ip hm) (q * ys + p) k)
             * weight (hinfo hm ! pos1D (ip hm) (q * ys + p) k) = 0"
    by (simp add: outside_row[OF assms] zero_hi_def)
qed

lemma outside_plain:
  assumes IT: "IT \<in> {1, 2, 3, 4}" and ok: "grid_ok xs ys" and hm: "build_map rt IT xs ys c s = Some hm"
    and "q < xs" "p < ys" and sc: "src_cell rt xs ys c s q p = (cq, cp)"
    and out: "\<not> (cq < xs \<and> cp < ys)"
    and "length d = xs * ys" "length dout = xs * ys" "\<not> saturating cfg"
  shows "\<exists>out. apply_map cfg hm d dout = Some out \<and> out ! (q * ys + p) = 0"
proof -
  note f = build_map_fields[OF IT hm]
  have wf: "wf_map hm (length d)" using build_map_wf[OF IT ok hm] assms(8) by simp
  have i: "q * ys + p < xs * ys" using assms(4,5) by (rule digits_less)
  have "apply_map cfg hm d dout = Some (map (row_sum hm d) [0..<hm_size hm])"
    by (rule apply_map_cells) (simp_all add: apply_cell_plain[OF wf _ assms(10)] assms(9) f)
  then show ?thesis using i outside_row_sum[OF IT ok hm assms(4,5) sc out] by (simp add: f)
qed

lemma boundary_example_built:
  "build_map RT1 4 2 2 (cos pi) (- sin pi) = Some boundary_example"
  using build_map_total[of 4 RT1 2 2 "cos pi" "- sin pi"]
  by (auto simp: boundary_example_def RotationMap_def)

lemma boundary_example_cell: "src_cell RT1 2 2 (cos pi) (- sin pi) 0 0 = (2, 2)"
  by (simp add: src_cell_def rot_coords_def trunc_def to_uint_def)

text \<open>
  Claim C2, at an input where the code departs from it. After a half turn on two by two
  cells the target \<open>(0, 0)\<close> has the source cell \<open>(2, 2)\<close>, outside the grid, and its row
  is all zero sentinels. Without the saturating block apply leaves 0 there. With it,
  the four entries read are sentinels with index 0, the sum 0 is clamped between
  \<^verbatim>\<open>data_in[0]\<close> and \<^verbatim>\<open>data_in[0]\<close>, and apply leaves 5.
\<close>

theorem boundary_saturating:
  "RotationMap RT1 4 2 2 pi = Some boundary_example \<and>
   src_cell RT1 2 2 (cos pi) (- sin pi) 0 0 = (2, 2) \<and>
   take 16 (hinfo boundary_example) = replicate 16 zero_hi \<and>
   map_option (\<lambda>out. out ! 0)
     (apply_map \<lparr>interpol_type = 4, saturating = False, limit_min = 1 / 1024, limit_max = 1024\<rparr>
        boundary_example [5, 0, 0, 0] [0, 0, 0, 0]) = Some 0 \<and>
   map_option (\<lambda>out. out ! 0)
     (apply_map \<lparr>interpol_type = 4, saturating = True, limit_min = 1 / 1024, limit_max = 1024\<rparr>
        boundary_example [5, 0, 0, 0] [0, 0, 0, 0]) = Some 5"
proof -
  let ?d = "[5, 0, 0, 0 :: real]" and ?o = "[0, 0, 0, 0 :: real]"
  let ?plain = "\<lparr>interpol_type = 4, saturating = False, limit_min = 1 / 1024, limit_max = 1024 :: real\<rparr>"
  let ?sat = "\<lparr>interpol_type = 4, saturating = True, limit_min = 1 / 1024, limit_max = 1024 :: real\<rparr>"
  have ok: "grid_ok 2 2" by (simp add: grid_ok_def)
  note f = build_map_fields[OF _ boundary_example_built]
  have l4: "length ?d = 2 * 2" by simp
  have wf: "wf_map boundary_example (length ?d)"
    unfolding l4 by (rule build_map_wf[OF _ ok boundary_example_built]) simp
  have len: "length ?o = hm_size boundary_example" by (simp add: f)
  have row: "hinfo boundary_example ! pos1D (ip boundary_example) (0 * 2 + 0) k = zero_hi" if "k < 4 * 4" for k
    by (rule outside_row[OF _ ok boundary_example_built _ _ boundary_example_cell _ that]) simp_all
  then have row': "hinfo boundary_example ! k = zero_hi" if "k < 16" for k
    using that by (simp add: pos1D_def)
  have t: "take 16 (hinfo boundary_example) = replicate 16 zero_hi"
    by (rule nth_equalityI) (simp_all add: f row')
  have rs: "row_sum boundary_example ?d 0 = 0"
    using outside_row_sum[OF _ ok boundary_example_built _ _ boundary_example_cell, of ?d] by simp
  have four: "[0..<4] = [0, 1, 2, 3]" by (simp add: upt_rec)
  have p: "apply_map ?plain boundary_example ?d ?o = Some (map (row_sum boundary_example ?d) [0..<hm_size boundary_example])"
    by (rule apply_map_cells[OF _ len]) (simp add: apply_cell_plain[OF wf])
  have ring: "samples boundary_example ?d 0 (ring_places 4) = [5, 5, 5, 5]"
    by (simp add: samples_def ring_places_def pos1D_def f row' zero_hi_def)
  have s: "apply_map ?sat boundary_example ?d ?o =
      Some (map (\<lambda>i. clamp_ring ?sat (samples boundary_example ?d i (ring_places (interpol_type ?sat)))
                        (row_sum boundary_example ?d i)) [0..<hm_size boundary_example])"
    by (rule apply_map_sat[OF wf len]) (simp_all add: f)
  show ?thesis
    using boundary_example_built boundary_example_cell t
    by (simp add: RotationMap_def p s f four rs ring clamp_ring_def)
qed

section \<open>Rows of weight 1 and constant fields\<close>

lemma constant_samples:
  assumes "wf_map hm n" "i < hm_size hm" "\<forall>k\<in>set ks. k < ip hm"
  shows "samples hm (replicate n c) i ks = replicate (length ks) c"
proof -
  have "replicate n c ! index (hinfo hm ! pos1D (ip hm) i k) = c" if "k \<in> set ks" for k
    using wf_map_rd(2)[OF assms(1,2), of k] assms(3) that by simp
  then show ?thesis by (simp add: samples_def map_replicate_const[symmetric] cong: map_cong)
qed

text \<open>
  Claim C9, as amended. For every interpolation order among 1, 2, 3, 4 the coefficients
  of one axis sum to 1, whatever the offset (in exact arithmetic); so for a target with an
  in-range source cell whose stencil cells are all inside the grid the weights of its row
  sum to 1, and apply returns and gives a constant field back at that target, in the build
  without saturation and in the build with saturation and a kernel of three or four
  points. (That the total of a field is kept does not follow, and does not hold.)
\<close>

theorem partition_of_unity:
  assumes "IT \<in> {1, 2, 3, 4}" and "grid_ok xs ys" and "q < xs" and "p < ys"
    and "src_cell rt xs ys (cos angle) (- sin angle) q p = (cq, cp)"
    and "src_frac rt xs ys (cos angle) (- sin angle) q p = (xq, xp)"
    and "cq < xs" and "cp < ys"
    and "\<forall>a<IT. 0 \<le> int cq + int a - int ((IT - 1) div 2) \<and>
                 int cq + int a - int ((IT - 1) div 2) < int xs"
    and "\<forall>b<IT. 0 \<le> int cp + int b - int ((IT - 1) div 2) \<and>
                 int cp + int b - int ((IT - 1) div 2) < int ys"
    and "length data_out = xs * ys"
    and "saturating cfg \<longrightarrow> interpol_type cfg = IT \<and> 3 \<le> IT"
  shows "(\<forall>x. \<exists>ic. icoeff IT x = Some ic \<and> sum_list ic = 1) \<and>
         (\<exists>hm. RotationMap rt IT xs ys angle = Some hm \<and>
               (\<Sum>k<IT * IT. weight (hinfo hm ! pos3D ys (IT * IT) q p k)) = 1 \<and>
               (\<forall>c. \<exists>out. apply_map cfg hm (replicate (xs * ys) c) data_out = Some out \<and>
                          out ! (q * ys + p) = c))"
proof (intro conjI allI)
  fix x show "\<exists>ic. icoeff IT x = Some ic \<and> sum_list ic = 1"
    using icoeff_sum[OF assms(1), of x] by blast
next
  let ?c = "cos angle" and ?s = "- sin angle"
  obtain icq where q: "icoeff IT xq = Some icq" "length icq = IT" "sum_list icq = 1"
    using icoeff_Some[OF assms(1)] by blast
  obtain icp where p: "icoeff IT xp = Some icp" "length icp = IT" "sum_list icp = 1"
    using icoeff_Some[OF assms(1)] by blast
  obtain hm where hm: "build_map rt IT xs ys ?c ?s = Some hm"
    using build_map_total[OF assms(1)] by blast
  note f = build_map_fields[OF assms(1) hm]
  have ent: "hinfo hm ! pos3D ys (IT * IT) q p (a * IT + b) =
         \<lparr>index = nat (int cq + int a - int ((IT - 1) div 2)) * ys
                  + nat (int cp + int b - int ((IT - 1) div 2)),
          weight = icq ! a * icp ! b\<rparr>" if "a < IT" "b < IT" for a b
    using build_map_nth[OF assms(1,2) hm assms(3,4) that assms(5,6) q(1) p(1)]
      assms(7-10) that by (simp add: stencil_entry_inside)
  have idx: "nat (int cq + int a - int ((IT - 1) div 2)) * ys
                  + nat (int cp + int b - int ((IT - 1) div 2)) < xs * ys" if "a < IT" "b < IT" for a b
  proof (rule digits_less)
    show "nat (int cq + int a - int ((IT - 1) div 2)) < xs" using assms(9) that(1) by auto
    show "nat (int cp + int b - int ((IT - 1) div 2)) < ys" using assms(10) that(2) by auto
  qed
  have prod1: "(\<Sum>a<IT. \<Sum>b<IT. icq ! a * icp ! b) = 1"
  proof -
    have "(\<Sum>a<IT. \<Sum>b<IT. icq ! a * icp ! b) = (\<Sum>a<IT. icq ! a) * (\<Sum>b<IT. icp ! b)"
      by (simp add: sum_product)
    then show ?thesis using q p by (simp add: sum_list_lessThan)
  qed
  have w: "(\<Sum>k<IT * IT. weight (hinfo hm ! pos3D ys (IT * IT) q p k)) = 1"
    unfolding sum_digits using prod1 by (simp add: ent)
  have r: "row_sum hm (replicate (xs * ys) c) (q * ys + p) = c" for c
  proof -
    have "row_sum hm (replicate (xs * ys) c) (q * ys + p) = (\<Sum>a<IT. \<Sum>b<IT. c * (icq ! a * icp ! b))"
      unfolding row_sum_def f(3) sum_digits pos1D_pos3D
      by (intro sum.cong refl) (use idx in \<open>simp add: ent\<close>)
    also have "\<dots> = c * (\<Sum>a<IT. \<Sum>b<IT. icq ! a * icp ! b)"
      by (simp add: sum_distrib_left)
    finally show ?thesis using prod1 by simp
  qed
  have wf0: "wf_map hm (xs * ys)" by (rule build_map_wf[OF assms(1,2) hm])
  have len: "length data_out = hm_size hm" using f assms(11) by simp
  have i: "q * ys + p < hm_size hm" using digits_less[OF assms(3,4)] f by simp
  have ap: "\<exists>out. apply_map cfg hm (replicate (xs * ys) c) data_out = Some out \<and>
                  out ! (q * ys + p) = c" for c
  proof (cases "saturating cfg")
    case False
    have wf: "wf_map hm (length (replicate (xs * ys) c))" using wf0 by simp
    have "apply_map cfg hm (replicate (xs * ys) c) data_out =
          Some (map (row_sum hm (replicate (xs * ys) c)) [0..<hm_size hm])"
      by (rule apply_map_cells[OF _ len]) (simp add: apply_cell_plain[OF wf _ False])
    then show ?thesis using i r by simp
  next
    case True
    then have IT: "interpol_type cfg = IT" "3 \<le> IT" using assms(12) by simp_all
    have wf: "wf_map hm (length (replicate (xs * ys) c))" using wf0 by simp
    have "2 * IT + 2 < IT * IT" using IT(2) assms(1) by auto
    then have rr: "2 * interpol_type cfg + 2 < ip hm" using IT f by simp
    have a: "apply_map cfg hm (replicate (xs * ys) c) data_out =
          Some (map (\<lambda>i. clamp_ring cfg (samples hm (replicate (xs * ys) c) i (ring_places (interpol_type cfg)))
                          (row_sum hm (replicate (xs * ys) c) i)) [0..<hm_size hm])"
      by (rule apply_map_sat[OF wf len True rr])
    have s: "samples hm (replicate (xs * ys) c) (q * ys + p) (ring_places (interpol_type cfg))
             = [c, c, c, c]"
      using constant_samples[OF wf0 i, of "ring_places (interpol_type cfg)" c] rr
      by (simp add: ring_places_def)
    have "clamp_ring cfg [c, c, c, c] c = c" by (rule clamp_ring_member) simp
    then show ?thesis using i r s by (simp add: a)
  qed
  show "\<exists>hm. RotationMap rt IT xs ys angle = Some hm \<and>
               (\<Sum>k<IT * IT. weight (hinfo hm ! pos3D ys (IT * IT) q p k)) = 1 \<and>
               (\<forall>c. \<exists>out. apply_map cfg hm (replicate (xs * ys) c) data_out = Some out \<and>
                          out ! (q * ys + p) = c)"
    using hm w ap by (auto simp: RotationMap_def)
qed

text \<open>
  Three by three cells, the kernel of three points, saturation enabled, angle 0, the
  target in the middle.
\<close>

theorem partition_of_unity_witness:
  "(3 :: nat) \<in> {1, 2, 3, 4} \<and> grid_ok 3 3 \<and>
   src_cell RT1 3 3 (cos 0) (- sin 0) 1 1 = (1, 1) \<and>
   src_frac RT1 3 3 (cos 0) (- sin 0) 1 1 = (0, 0) \<and>
   (\<exists>ic. icoeff 3 (1 / 3) = Some ic \<and> sum_list ic = 1) \<and>
   (\<exists>hm. RotationMap RT1 3 3 3 0 = Some hm \<and>
         (\<Sum>k<9. weight (hinfo hm ! pos3D 3 9 1 1 k)) = 1 \<and>
         (\<exists>out. apply_map \<lparr>interpol_type = 3, saturating = True, limit_min = 1 / 1024, limit_max = 1024\<rparr>
                   hm (replicate 9 7) (replicate 9 0) = Some out \<and> out ! 4 = 7))"
proof -
  let ?cfg = "\<lparr>interpol_type = 3, saturating = True, limit_min = 1 / 1024, limit_max = 1024 :: real\<rparr>"
  have sc: "src_cell RT1 3 3 (cos 0) (- sin 0) 1 1 = (1, 1)"
    by (simp add: src_cell_def rot_coords_def trunc_def to_uint_def)
  have sf: "src_frac RT1 3 3 (cos 0) (- sin 0) 1 1 = (0, 0)"
    by (simp add: src_frac_def rot_coords_def trunc_def)
  have ok: "grid_ok 3 3" by (simp add: grid_ok_def)
  have inb: "\<forall>a<3. 0 \<le> int 1 + int a - int ((3 - 1) div 2) \<and>
                  int 1 + int a - int ((3 - 1) div 2) < int 3"
    by auto
  have "(\<forall>x. \<exists>ic. icoeff 3 x = Some ic \<and> sum_list ic = 1) \<and>
         (\<exists>hm. RotationMap RT1 3 3 3 0 = Some hm \<and>
               (\<Sum>k<3 * 3. weight (hinfo hm ! pos3D 3 (3 * 3) 1 1 k)) = 1 \<and>
               (\<forall>c. \<exists>out. apply_map ?cfg hm (replicate (3 * 3) c) (replicate 9 0) = Some out \<and>
                          out ! (1 * 3 + 1) = c))"
    by (rule partition_of_unity[OF _ ok _ _ sc sf _ _ inb inb]) simp_all
  then have "(\<exists>ic. icoeff 3 (1 / 3) = Some ic \<and> sum_list ic = 1) \<and>
      (\<exists>hm. RotationMap RT1 3 3 3 0 = Some hm \<and>
         (\<Sum>k<9. weight (hinfo hm ! pos3D 3 9 1 1 k)) = 1 \<and>
         (\<exists>out. apply_map ?cfg hm (replicate 9 7) (replicate 9 0) = Some out \<and> out ! 4 = 7))"
    by simp blast
  with sc sf ok show ?thesis by simp
qed

text \<open>
  A turn by the angle \<open>arctan (15 / 8)\<close> on three by two cells, with the kernel of one
  point: the targets \<open>(1, 0)\<close> and \<open>(2, 0)\<close> both have the source cell \<open>(0, 0)\<close>, with
  offsets in \<open>[0, 1)\<close>.
\<close>

lemma turn_angle:
  "cos (arctan (15 / 8)) = 8 / 17" "sin (arctan (15 / 8)) = 15 / 17"
proof -
  have r: "sqrt (1 + (15 / 8)\<^sup>2) = 17 / 8"
    by (rule real_sqrt_unique) (simp_all add: power2_eq_square)
  show "cos (arctan (15 / 8)) = 8 / 17" "sin (arctan (15 / 8)) = 15 / 17"
    unfolding cos_arctan sin_arctan r by simp_all
qed

lemma turn_example_built:
  "build_map RT1 1 3 2 (8 / 17) (- (15 / 17)) = Some turn_example"
  using build_map_total[of 1 RT1 3 2 "8 / 17" "- (15 / 17)"]
  by (auto simp: turn_example_def RotationMap_def turn_angle)

lemma turn_example_coords:
  "rot_coords RT1 3 2 (8 / 17) (- (15 / 17)) 0 0 = (- 3 / 34, 63 / 34)"
  "rot_coords RT1 3 2 (8 / 17) (- (15 / 17)) 0 1 = (27 / 34, 79 / 34)"
  "rot_coords RT1 3 2 (8 / 17) (- (15 / 17)) 1 0 = (13 / 34, 33 / 34)"
  "rot_coords RT1 3 2 (8 / 17) (- (15 / 17)) 1 1 = (43 / 34, 49 / 34)"
  "rot_coords RT1 3 2 (8 / 17) (- (15 / 17)) 2 0 = (29 / 34, 3 / 34)"
  "rot_coords RT1 3 2 (8 / 17) (- (15 / 17)) 2 1 = (59 / 34, 19 / 34)"
  by (simp_all add: rot_coords_def)

lemma turn_example_cell:
  "src_cell RT1 3 2 (8 / 17) (- (15 / 17)) 0 0 = (0, 1)"
  "src_cell RT1 3 2 (8 / 17) (- (15 / 17)) 0 1 = (0, 2)"
  "src_cell RT1 3 2 (8 / 17) (- (15 / 17)) 1 0 = (0, 0)"
  "src_cell RT1 3 2 (8 / 17) (- (15 / 17)) 1 1 = (1, 1)"
  "src_cell RT1 3 2 (8 / 17) (- (15 / 17)) 2 0 = (0, 0)"
  "src_cell RT1 3 2 (8 / 17) (- (15 / 17)) 2 1 = (1, 0)"
  unfolding src_cell_def turn_example_coords
  by (simp_all add: trunc_def to_uint_def)

lemma turn_example_frac:
  "src_frac RT1 3 2 (8 / 17) (- (15 / 17)) 1 0 = (13 / 34, 33 / 34)"
  "src_frac RT1 3 2 (8 / 17) (- (15 / 17)) 2 0 = (29 / 34, 3 / 34)"
  unfolding src_frac_def turn_example_coords
  by (simp_all add: trunc_def)

lemma turn_example_sum:
  "row_sum turn_example d 0 = d ! 1"
  "row_sum turn_example d 1 = 0"
  "row_sum turn_example d 2 = d ! 0"
  "row_sum turn_example d 3 = d ! 3"
  "row_sum turn_example d 4 = d ! 0"
  "row_sum turn_example d 5 = d ! 2"
proof -
  have ok: "grid_ok 3 2" by (simp add: grid_ok_def)
  have ic: "icoeff 1 x = Some [1]" for x :: real by (simp add: icoeff_cases)
  obtain f00 f01 f10 f11 f20 f21 where fr:
    "src_frac RT1 3 2 (8 / 17) (- (15 / 17)) 0 0 = f00"
    "src_frac RT1 3 2 (8 / 17) (- (15 / 17)) 0 1 = f01"
    "src_frac RT1 3 2 (8 / 17) (- (15 / 17)) 1 0 = f10"
    "src_frac RT1 3 2 (8 / 17) (- (15 / 17)) 1 1 = f11"
    "src_frac RT1 3 2 (8 / 17) (- (15 / 17)) 2 0 = f20"
    "src_frac RT1 3 2 (8 / 17) (- (15 / 17)) 2 1 = f21" by simp
  note b = built_row_sum[OF _ ok turn_example_built _ _ _ surjective_pairing ic ic, where d = d]
  show "row_sum turn_example d 0 = d ! 1"
    using b[of 0 0, OF _ _ _ turn_example_cell(1)] by (simp add: stencil_entry_def)
  show "row_sum turn_example d 1 = 0"
    using b[of 0 1, OF _ _ _ turn_example_cell(2)] by (simp add: stencil_entry_def zero_hi_def)
  show "row_sum turn_example d 2 = d ! 0"
    using b[of 1 0, OF _ _ _ turn_example_cell(3)] by (simp add: stencil_entry_def)
  show "row_sum turn_example d 3 = d ! 3"
    using b[of 1 1, OF _ _ _ turn_example_cell(4)] by (simp add: stencil_entry_def)
  show "row_sum turn_example d 4 = d ! 0"
    using b[of 2 0, OF _ _ _ turn_example_cell(5)] by (simp add: stencil_entry_def)
  show "row_sum turn_example d 5 = d ! 2"
    using b[of 2 1, OF _ _ _ turn_example_cell(6)] by (simp add: stencil_entry_def)
qed

text \<open>
  The claim C9 as the spec states it, with apply conserving mass, fails: both targets
  have their stencil inside the grid and a row of weight 1, and the field that is 1 at
  cell \<open>(0, 0)\<close> and 0 elsewhere, of total 1, becomes a field of total 2.
\<close>

theorem mass_counterexample:
  "RotationMap RT1 1 3 2 (arctan (15 / 8)) = Some turn_example \<and>
   src_cell RT1 3 2 (cos (arctan (15 / 8))) (- sin (arctan (15 / 8))) 1 0 = (0, 0) \<and>
   src_frac RT1 3 2 (cos (arctan (15 / 8))) (- sin (arctan (15 / 8))) 1 0 = (13 / 34, 33 / 34) \<and>
   src_cell RT1 3 2 (cos (arctan (15 / 8))) (- sin (arctan (15 / 8))) 2 0 = (0, 0) \<and>
   src_frac RT1 3 2 (cos (arctan (15 / 8))) (- sin (arctan (15 / 8))) 2 0 = (29 / 34, 3 / 34) \<and>
   hinfo turn_example ! 2 = \<lparr>index = 0, weight = 1\<rparr> \<and>
   hinfo turn_example ! 4 = \<lparr>index = 0, weight = 1\<rparr> \<and>
   apply_map \<lparr>interpol_type = 1, saturating = False, limit_min = 1 / 1024, limit_max = 1024\<rparr>
     turn_example [1, 0, 0, 0, 0, 0] [0, 0, 0, 0, 0, 0] = Some [0, 0, 1, 0, 1, 0] \<and>
   sum_list [0, 0, 1, 0, 1, 0 :: real] = 2 \<and> sum_list [1, 0, 0, 0, 0, 0 :: real] = 1"
proof -
  let ?d = "[1, 0, 0, 0, 0, 0 :: real]"
  let ?plain = "\<lparr>interpol_type = 1, saturating = False, limit_min = 1 / 1024, limit_max = 1024 :: real\<rparr>"
  have ok: "grid_ok 3 2" by (simp add: grid_ok_def)
  note f = build_map_fields[OF _ turn_example_built]
  have ic: "icoeff 1 x = Some [1]" for x :: real by (simp add: icoeff_cases)
  have l6: "length ?d = 3 * 2" by simp
  have wf: "wf_map turn_example (length ?d)"
    unfolding l6 by (rule build_map_wf[OF _ ok turn_example_built]) simp
  have len: "length [0, 0, 0, 0, 0, 0 :: real] = hm_size turn_example" by (simp add: f)
  have six: "[0..<6] = [0, 1, 2, 3, 4, 5]" by (simp add: upt_rec)
  have p: "apply_map ?plain turn_example ?d [0, 0, 0, 0, 0, 0] =
           Some (map (row_sum turn_example ?d) [0..<hm_size turn_example])"
    by (rule apply_map_cells[OF _ len]) (simp add: apply_cell_plain[OF wf])
  have a: "apply_map ?plain turn_example ?d [0, 0, 0, 0, 0, 0] = Some [0, 0, 1, 0, 1, 0]"
    unfolding p using turn_example_sum[of ?d] by (simp add: f six)
  have e2: "hinfo turn_example ! 2 = \<lparr>index = 0, weight = 1\<rparr>"
    using build_map_nth[OF _ ok turn_example_built _ _ _ _ turn_example_cell(3) turn_example_frac(1) ic ic, of 0 0]
    by (simp add: pos3D_def stencil_entry_def)
  have e4: "hinfo turn_example ! 4 = \<lparr>index = 0, weight = 1\<rparr>"
    using build_map_nth[OF _ ok turn_example_built _ _ _ _ turn_example_cell(5) turn_example_frac(2) ic ic, of 0 0]
    by (simp add: pos3D_def stencil_entry_def)
  show ?thesis
    using turn_example_built turn_example_cell(3,5) turn_example_frac a e2 e4
    by (simp add: RotationMap_def turn_angle)
qed

section \<open>Angle 0 in the other builds\<close>

lemma division_example_built:
  "build_map RT3 1 3 1 (cos 0) (- sin 0) = Some division_example"
  using build_map_total[of 1 RT3 3 1 "cos 0" "- sin 0"]
  by (auto simp: division_example_def RotationMap_def)

lemma division_example_coords:
  "rot_coords RT3 3 1 (cos 0) (- sin 0) 0 0 = (0, 0)"
  "rot_coords RT3 3 1 (cos 0) (- sin 0) 1 0 = (3 / 2, 0)"
  "rot_coords RT3 3 1 (cos 0) (- sin 0) 2 0 = (3 / 2, 0)"
  by (simp_all add: rot_coords_def tdiv_def)

lemma division_example_cell:
  "src_cell RT3 3 1 (cos 0) (- sin 0) 0 0 = (0, 0)"
  "src_cell RT3 3 1 (cos 0) (- sin 0) 1 0 = (1, 0)"
  "src_cell RT3 3 1 (cos 0) (- sin 0) 2 0 = (1, 0)"
  "src_frac RT3 3 1 (cos 0) (- sin 0) 0 0 = (0, 0)"
  "src_frac RT3 3 1 (cos 0) (- sin 0) 1 0 = (1 / 2, 0)"
  "src_frac RT3 3 1 (cos 0) (- sin 0) 2 0 = (1 / 2, 0)"
  unfolding src_cell_def src_frac_def division_example_coords
  by (simp_all add: trunc_def to_uint_def)

lemma division_example_sum:
  "row_sum division_example d 0 = d ! 0"
  "row_sum division_example d 1 = d ! 1"
  "row_sum division_example d 2 = d ! 1"
proof -
  have ok: "grid_ok 3 1" by (simp add: grid_ok_def)
  have ic: "icoeff 1 x = Some [1]" for x :: real by (simp add: icoeff_cases)
  show "row_sum division_example d 0 = d ! 0"
    using built_row_sum[OF _ ok division_example_built _ _ division_example_cell(1,4) ic ic, of d]
    by (simp add: stencil_entry_def)
  show "row_sum division_example d 1 = d ! 1"
    using built_row_sum[OF _ ok division_example_built _ _ division_example_cell(2,5) ic ic, of d]
    by (simp add: stencil_entry_def)
  show "row_sum division_example d 2 = d ! 1"
    using built_row_sum[OF _ ok division_example_built _ _ division_example_cell(3,6) ic ic, of d]
    by (simp add: stencil_entry_def)
qed

lemma unit_example_built:
  "build_map RT1 1 2 2 (cos 0) (- sin 0) = Some unit_example"
  using build_map_total[of 1 RT1 2 2 "cos 0" "- sin 0"]
  by (auto simp: unit_example_def RotationMap_def)

lemma sat_step_None:
  "src_val hm d i (x * IT + y) = None \<Longrightarrow> sat_step IT hm d i x y s = None"
  by (cases s) (auto simp: sat_step_def)

lemma apply_step_None: "fold (apply_step cfg hm d) xs None = None"
  by (induction xs) (simp_all add: apply_step_def)

lemma apply_map_first:
  assumes "0 < hm_size hm" "apply_cell cfg hm d 0 = None"
  shows "apply_map cfg hm d dout = None"
proof -
  have "[0..<hm_size hm] = 0 # [1..<hm_size hm]" using assms(1) by (simp add: upt_rec)
  then show ?thesis by (simp add: apply_map_def apply_step_def assms(2) apply_step_None)
qed

lemma unit_example_sat:
  assumes "saturating cfg" "interpol_type cfg = 1"
  shows "apply_map cfg unit_example [1, 2, 3, 4] [0, 0, 0, 0] = None"
proof -
  note f = build_map_fields[OF _ unit_example_built]
  have "src_val unit_example d 0 (2 * Suc 0 + 2) = None" for d
    by (simp add: src_val_def rd_def pos1D_def f)
  then have st: "sat_step (Suc 0) unit_example d 0 2 2 s = None" for d s
    by (rule sat_step_None)
  have u: "[Suc 0..<3] = [Suc 0, 2]" by (simp add: upt_rec)
  have "sat_bounds 1 lmin lmax unit_example d 0 = None" for lmin lmax d
    by (simp add: sat_bounds_def u st)
  then have "apply_cell cfg unit_example [1, 2, 3, 4] 0 = None"
    using assms by (simp add: apply_cell_def split: option.splits)
  then show ?thesis by (rule apply_map_first[rotated]) (simp add: f)
qed

text \<open>
  Claim C5, at inputs where the code departs from it. At angle 0 the build with
  \<^verbatim>\<open>ROTATION_TYPE 3\<close> divides integers: on three cells the targets 1 and 2 both get the
  coordinate \<open>3 / 2\<close>, so the source cell 1 and the offset \<open>1 / 2\<close>, and with the kernel
  of one point apply turns the field 10, 20, 30 into 10, 20, 20. In the build with
  saturation and the kernel of one point the saturating block reads the places 2, 3, 3, 4
  of a row that has one entry; on two by two cells place 4 of row 0 lies behind the end
  of the table, and apply has no result.
\<close>

theorem identity_departs:
  "RotationMap RT3 1 3 1 0 = Some division_example \<and>
   rot_coords RT3 3 1 (cos 0) (- sin 0) 2 0 = (3 / 2, 0) \<and>
   src_cell RT3 3 1 (cos 0) (- sin 0) 2 0 = (1, 0) \<and>
   src_frac RT3 3 1 (cos 0) (- sin 0) 2 0 = (1 / 2, 0) \<and>
   apply_map \<lparr>interpol_type = 1, saturating = False, limit_min = 1 / 1024, limit_max = 1024\<rparr>
     division_example [10, 20, 30] [0, 0, 0] = Some [10, 20, 20] \<and>
   RotationMap RT1 1 2 2 0 = Some unit_example \<and>
   apply_map \<lparr>interpol_type = 1, saturating = True, limit_min = 1 / 1024, limit_max = 1024\<rparr>
     unit_example [1, 2, 3, 4] [0, 0, 0, 0] = None"
proof -
  let ?d = "[10, 20, 30 :: real]"
  let ?plain = "\<lparr>interpol_type = 1, saturating = False, limit_min = 1 / 1024, limit_max = 1024 :: real\<rparr>"
  have ok: "grid_ok 3 1" by (simp add: grid_ok_def)
  note f = build_map_fields[OF _ division_example_built]
  have l3: "length ?d = 3 * 1" by simp
  have wf: "wf_map division_example (length ?d)"
    unfolding l3 by (rule build_map_wf[OF _ ok division_example_built]) simp
  have len: "length [0, 0, 0 :: real] = hm_size division_example" by (simp add: f)
  have p: "apply_map ?plain division_example ?d [0, 0, 0] =
           Some (map (row_sum division_example ?d) [0..<hm_size division_example])"
    by (rule apply_map_cells[OF _ len]) (simp add: apply_cell_plain[OF wf])
  have a: "apply_map ?plain division_example ?d [0, 0, 0] = Some [10, 20, 20]"
    unfolding p using division_example_sum[of ?d] by (simp add: f upt_small)
  show ?thesis
    using division_example_built unit_example_built division_example_coords(3)
      division_example_cell(3,6) a unit_example_sat[of "\<lparr>interpol_type = 1, saturating = True, limit_min = 1 / 1024, limit_max = 1024\<rparr>"]
    by (simp add: RotationMap_def)
qed

section \<open>The scalar operations of the arrays\<close>

text \<open>
  The strided loop of \<^verbatim>\<open>array2::operator += (T a)\<close> returns when the counter cannot wrap,
  and it has then applied the update at the multiples of the increment below the size.
\<close>

lemma stride_loop_from:
  assumes "0 < inc" "n + inc \<le> 2 ^ 32" "n \<le> length buf"
  shows "stride_loop f inc n i buf =
         Some (None, map (\<lambda>k. if i \<le> k \<and> k < n \<and> inc dvd (k - i) then f (buf ! k) else buf ! k)
                       [0..<length buf])"
  using assms(3)
proof (induction "n - i" arbitrary: i buf rule: less_induct)
  case less
  show ?case
  proof (cases "i < n")
    case False
    then have "map (\<lambda>k. if i \<le> k \<and> k < n \<and> inc dvd (k - i) then f (buf ! k) else buf ! k)
                 [0..<length buf] = map (\<lambda>k. buf ! k) [0..<length buf]"
      by (intro map_cong refl) auto
    then show ?thesis using False by (subst stride_loop.simps) (simp add: map_nth)
  next
    case True
    let ?i' = "i + inc" and ?b = "buf[i := f (buf ! i)]"
    have i': "(i + inc) mod 2 ^ 32 = ?i'" using True assms(2) by simp
    have il: "i < length buf" using True less.prems by simp
    have IH: "stride_loop f inc n ?i' ?b =
         Some (None, map (\<lambda>k. if ?i' \<le> k \<and> k < n \<and> inc dvd (k - ?i') then f (?b ! k) else ?b ! k)
                       [0..<length ?b])"
      using True assms(1) less.prems by (intro less.hyps) simp_all
    have "map (\<lambda>k. if ?i' \<le> k \<and> k < n \<and> inc dvd (k - ?i') then f (?b ! k) else ?b ! k) [0..<length ?b]
        = map (\<lambda>k. if i \<le> k \<and> k < n \<and> inc dvd (k - i) then f (buf ! k) else buf ! k) [0..<length buf]"
    proof (rule map_cong)
      show "[0..<length ?b] = [0..<length buf]" by simp
    next
      fix k assume "k \<in> set [0..<length buf]"
      then have kl: "k < length buf" by simp
      show "(if ?i' \<le> k \<and> k < n \<and> inc dvd (k - ?i') then f (?b ! k) else ?b ! k)
          = (if i \<le> k \<and> k < n \<and> inc dvd (k - i) then f (buf ! k) else buf ! k)"
      proof (cases "k = i")
        case True
        then show ?thesis using il \<open>i < n\<close> assms(1) by simp
      next
        case False
        have "(?i' \<le> k \<and> inc dvd (k - ?i')) \<longleftrightarrow> (i \<le> k \<and> inc dvd (k - i))"
        proof
          assume a: "?i' \<le> k \<and> inc dvd (k - ?i')"
          then have e: "k - i = (k - ?i') + inc" by simp
          from a have d: "inc dvd (k - ?i')" by blast
          have "inc dvd (k - ?i') + inc" by (intro dvd_add d dvd_refl)
          then have "inc dvd (k - i)" by (simp only: e)
          with a show "i \<le> k \<and> inc dvd (k - i)" by simp
        next
          assume a: "i \<le> k \<and> inc dvd (k - i)"
          then have "0 < k - i" using False by simp
          with a have "inc \<le> k - i" by (simp add: dvd_imp_le)
          then have le: "?i' \<le> k" using a by linarith
          then have e: "k - i = (k - ?i') + inc" by simp
          from a have "inc dvd (k - i)" by blast
          then have "inc dvd (k - ?i') + inc" by (simp only: e)
          then have "inc dvd (k - ?i')" by (simp only: dvd_add_triv_right_iff)
          with le show "?i' \<le> k \<and> inc dvd (k - ?i')" by simp
        qed
        then show ?thesis using False by auto
      qed
    qed
    with IH show ?thesis using True il i' by (subst stride_loop.simps) simp
  qed
qed

lemma stride_loop_0:
  assumes "0 < inc" "n + inc \<le> 2 ^ 32" "n \<le> length buf"
  shows "stride_loop f inc n 0 buf = Some (None, stride_update f inc n buf)"
  using stride_loop_from[OF assms, of f 0] by (simp add: stride_update_def)

lemma CheckSize_Some:
  assumes "CheckSize B = Some e"
  shows "asize B = 0"
  using assms by (simp add: CheckSize_def split: if_splits)

lemma stride_update_nth:
  assumes "k < length buf"
  shows "stride_update f inc n buf ! k = (if k < n \<and> inc dvd k then f (buf ! k) else buf ! k)"
  using assms by (simp add: stride_update_def)

lemma stride_update_0: "stride_update f inc 0 buf = buf"
  by (simp add: stride_update_def map_nth)

lemma array2_scalar_eq:
  assumes "length (v B) = asize B" "asize B + ny B < 2 ^ 32"
  shows "array2_scalar f B = Some (CheckSize B, stride_update f (ny B + 1) (asize B) (v B))"
proof (cases "CheckSize B")
  case None
  show ?thesis
  proof (cases "asize B = 0")
    case True
    then show ?thesis
      unfolding array2_scalar_def None
      by (subst stride_loop.simps) (simp add: stride_update_0)
  next
    case False
    then have inc: "(ny B + 1) mod 2 ^ 32 = ny B + 1" using assms(2) by simp
    have "stride_loop f (ny B + 1) (asize B) 0 (v B)
          = Some (None, stride_update f (ny B + 1) (asize B) (v B))"
      using assms by (intro stride_loop_0) simp_all
    then show ?thesis unfolding array2_scalar_def None inc by simp
  qed
next
  case (Some e)
  then show ?thesis
    using CheckSize_Some[OF Some] by (simp add: array2_scalar_def stride_update_0)
qed

lemma scalar_fold:
  assumes "n \<le> length buf"
  shows "fold (scalar_step f) [0..<n] (None, buf) = (None, map f (take n buf) @ drop n buf)"
  using assms
proof (induction n)
  case 0
  then show ?case by simp
next
  case (Suc n)
  then have n: "n < length buf" by simp
  have d: "drop n buf = buf ! n # drop (Suc n) buf"
    using n by (simp add: Cons_nth_drop_Suc)
  have "(map f (take n buf) @ drop n buf)[n := f ((map f (take n buf) @ drop n buf) ! n)]
        = map f (take (Suc n) buf) @ drop (Suc n) buf"
    using n by (simp add: list_update_append nth_append take_Suc_conv_app_nth d)
  then show ?case using Suc n by (simp add: scalar_step_def)
qed

lemma array1_scalar_eq:
  assumes "length (v A) = asize A"
  shows "array1_scalar f A = (CheckSize A, map f (v A))"
proof (cases "CheckSize A")
  case None
  then show ?thesis using assms scalar_fold[of "asize A" "v A" f] by (simp add: array1_scalar_def)
next
  case (Some e)
  then show ?thesis using CheckSize_Some[OF Some] assms by (simp add: array1_scalar_def)
qed

lemma diagonal_iff:
  fixes r c nx ny :: nat
  assumes "r < nx" "c < ny" "nx \<le> ny + 1"
  shows "(ny + 1) dvd (r * ny + c) \<longleftrightarrow> r = c"
proof
  assume "r = c"
  then have "r * ny + c = r * (ny + 1)" by simp
  then show "(ny + 1) dvd (r * ny + c)" by (metis dvd_triv_right)
next
  assume d: "(ny + 1) dvd (r * ny + c)"
  have m: "(ny + 1) dvd r * (ny + 1)" by (rule dvd_triv_right)
  show "r = c"
  proof (cases "r \<le> c")
    case True
    then have "r * ny + c = r * (ny + 1) + (c - r)" by simp
    then have "(ny + 1) dvd (c - r)" using d m by (metis dvd_add_right_iff)
    moreover have "c - r < ny + 1" using assms(2) by simp
    ultimately have "c - r = 0" by (meson dvd_imp_le not_less zero_less_iff_neq_zero)
    with True show ?thesis by simp
  next
    case False
    then have "r * (ny + 1) = (r * ny + c) + (r - c)" by simp
    then have "(ny + 1) dvd (r - c)" using d m by (metis dvd_add_right_iff)
    moreover have "r - c < ny + 1" "0 < r - c" using assms(1,3) False by simp_all
    ultimately show ?thesis by (meson dvd_imp_le not_less)
  qed
qed

lemma upt_2_3: "[0..<2] = [0, Suc 0]" "[0..<3] = [0, Suc 0, 2]"
  by (simp_all add: upt_rec)

text \<open>
  Claim C10, as amended. For a two-dimensional array whose block holds its \<open>nx * ny\<close>
  elements (and \<open>nx * ny + ny < 2 ^ 32\<close>, so that the loop counter does not wrap), the
  scalar operations \<^verbatim>\<open>+= a\<close> and \<^verbatim>\<open>-= a\<close> return, and the element at position \<open>(r, c)\<close>
  is changed by \<open>a\<close> exactly when its flat index \<open>r * ny + c\<close> is a multiple of \<open>ny + 1\<close>,
  every other element being left as it was. These indices are the positions \<open>(i, i)\<close> of
  the main diagonal when \<open>nx \<le> ny + 1\<close>. The scalar \<^verbatim>\<open>+=\<close> and \<^verbatim>\<open>-=\<close> of the
  one-dimensional array update every element.
\<close>

theorem scalar_compound_stride:
  fixes B :: "('a::{plus,minus}, 'b) array2_scheme" and A :: "('a, 'c) array1_scheme"
  assumes "asize B = nx B * ny B" and "length (v B) = asize B"
    and "nx B * ny B + ny B < 2 ^ 32" and "length (v A) = asize A"
  shows "\<exists>buf buf'.
           array2_add_scalar B a = Some (CheckSize B, buf) \<and>
           array2_sub_scalar B a = Some (CheckSize B, buf') \<and>
           (\<forall>r<nx B. \<forall>c<ny B.
              buf ! (r * ny B + c) =
                (if (ny B + 1) dvd (r * ny B + c) then v B ! (r * ny B + c) + a
                 else v B ! (r * ny B + c)) \<and>
              buf' ! (r * ny B + c) =
                (if (ny B + 1) dvd (r * ny B + c) then v B ! (r * ny B + c) - a
                 else v B ! (r * ny B + c))) \<and>
           (nx B \<le> ny B + 1 \<longrightarrow>
              (\<forall>r<nx B. \<forall>c<ny B. (ny B + 1) dvd (r * ny B + c) \<longleftrightarrow> r = c)) \<and>
           array1_add_scalar A a = (CheckSize A, map (\<lambda>x. x + a) (v A)) \<and>
           array1_sub_scalar A a = (CheckSize A, map (\<lambda>x. x - a) (v A))"
proof -
  have sz: "asize B + ny B < 2 ^ 32" using assms(1,3) by simp
  have k: "r * ny B + c < length (v B)" if "r < nx B" "c < ny B" for r c
  proof -
    have "r * ny B + c < r * ny B + ny B" using that by simp
    also have "\<dots> = Suc r * ny B" by simp
    also have "\<dots> \<le> nx B * ny B" using that by (intro mult_le_mono1) simp
    finally show ?thesis using assms(1,2) by simp
  qed
  have el: "stride_update f (ny B + 1) (asize B) (v B) ! (r * ny B + c) =
        (if (ny B + 1) dvd (r * ny B + c) then f (v B ! (r * ny B + c)) else v B ! (r * ny B + c))"
    if "r < nx B" "c < ny B" for r c f
    using k[OF that] assms(2) by (simp add: stride_update_nth)
  show ?thesis
    unfolding array2_add_scalar_def array2_sub_scalar_def array1_add_scalar_def array1_sub_scalar_def
      array2_scalar_eq[OF assms(2) sz] array1_scalar_eq[OF assms(4)]
    using el diagonal_iff by (intro exI conjI) auto
qed

theorem scalar_compound_stride_witness:
  "asize \<lparr>v = [1, 2, 3, 4 :: int], asize = 4, state = 1, nx = 2, ny = 2\<rparr> = 2 * 2 \<and>
   (2 :: nat) * 2 + 2 < 2 ^ 32 \<and> (2 :: nat) \<le> 2 + 1 \<and>
   (\<exists>buf. array2_add_scalar \<lparr>v = [1, 2, 3, 4 :: int], asize = 4, state = 1, nx = 2, ny = 2\<rparr> 10
            = Some (None, buf) \<and>
          buf ! 0 = 11 \<and> buf ! 1 = 2 \<and> buf ! 2 = 3 \<and> buf ! 3 = 14) \<and>
   array1_sub_scalar \<lparr>v = [1, 2, 3 :: int], asize = 3, state = 1\<rparr> 10 = (None, [- 9, - 8, - 7])"
proof -
  let ?B = "\<lparr>v = [1, 2, 3, 4 :: int], asize = 4, state = 1, nx = 2 :: nat, ny = 2 :: nat\<rparr>"
  let ?A = "\<lparr>v = [1, 2, 3 :: int], asize = 3, state = 1\<rparr>"
  have cs: "CheckSize ?B = None" "CheckSize ?A = None" by (simp_all add: CheckSize_def test_def)
  obtain buf buf' where a: "array2_add_scalar ?B 10 = Some (CheckSize ?B, buf)"
    and el: "\<forall>r<nx ?B. \<forall>c<ny ?B.
              buf ! (r * ny ?B + c) =
                (if (ny ?B + 1) dvd (r * ny ?B + c) then v ?B ! (r * ny ?B + c) + 10
                 else v ?B ! (r * ny ?B + c)) \<and>
              buf' ! (r * ny ?B + c) =
                (if (ny ?B + 1) dvd (r * ny ?B + c) then v ?B ! (r * ny ?B + c) - 10
                 else v ?B ! (r * ny ?B + c))"
    and s: "array1_sub_scalar ?A 10 = (CheckSize ?A, map (\<lambda>x. x - 10) (v ?A))"
    using scalar_compound_stride[of ?B ?A 10] by auto
  have "buf ! 0 = 11" "buf ! 1 = 2" "buf ! 2 = 3" "buf ! 3 = 14"
    using el[rule_format, of 0 0] el[rule_format, of 0 1] el[rule_format, of 1 0] el[rule_format, of 1 1]
    by simp_all
  with a s cs show ?thesis by simp
qed

text \<open>
  On an array of 3 rows and 1 column the flat index 2 is a multiple of \<open>ny + 1 = 2\<close>:
  the element at position \<open>(2, 0)\<close>, which is not on the diagonal, is changed.
\<close>

theorem scalar_diagonal_counterexample:
  "array2_add_scalar \<lparr>v = [0, 0, 0 :: int], asize = 3, state = 1, nx = 3, ny = 1\<rparr> 1 = Some (None, [1, 0, 1]) \<and>
   (2 :: nat) < 3 \<and> (0 :: nat) < 1 \<and> (2 :: nat) \<noteq> 0 \<and>
   [1, 0, 1 :: int] ! (2 * 1 + 0) \<noteq> [0, 0, 0] ! (2 * 1 + 0)"
  by (simp add: array2_add_scalar_def array2_scalar_def CheckSize_def test_def stride_loop.simps)

section \<open>The compound operations between two arrays\<close>

lemma s32_id:
  assumes "- (2 ^ 31) \<le> z" "z < 2 ^ 31"
  shows "s32 z = z"
proof -
  have "0 \<le> z + 2 ^ 31" "z + 2 ^ 31 < 2 ^ 32" using assms by simp_all
  then have "(z + 2 ^ 31) mod 2 ^ 32 = z + 2 ^ 31" by simp
  then show ?thesis by (simp add: s32_def)
qed

lemma s32_nat:
  assumes "n < 2 ^ 31"
  shows "s32 (int n) = int n"
  using assms by (intro s32_id) simp_all

lemma Check_None_iff: "Check i n dm m o' = None \<longleftrightarrow> 0 \<le> i \<and> i < n"
  by (auto simp: Check_def)

lemma Check_in: "0 \<le> i \<Longrightarrow> i < n \<Longrightarrow> Check i n dm m o' = None"
  by (simp add: Check_None_iff)

lemma raw_in: "k < length buf \<Longrightarrow> raw buf (int k) = Inr (buf ! k)"
  by (simp add: raw_def)

lemma array1_at_in:
  assumes "wf_array A" "i < asize A"
  shows "array1_at A (s32 (int i)) = Inr (v A ! i)"
proof -
  have n: "s32 (int (asize A)) = int (asize A)" and i: "s32 (int i) = int i"
    using assms by (simp_all add: wf_array_def s32_nat)
  show ?thesis
    using assms by (simp add: array1_at_def n i Check_in raw_in wf_array_def)
qed

lemma array1_at_end:
  assumes "wf_array A"
  shows "array1_at A (s32 (int (asize A))) = Inl (the (Check (int (asize A)) (int (asize A)) 1 1 0))"
proof -
  have n: "s32 (int (asize A)) = int (asize A)"
    using assms by (simp add: wf_array_def s32_nat)
  obtain e where "Check (int (asize A)) (int (asize A)) 1 1 0 = Some e"
    using Check_None_iff[of "int (asize A)" "int (asize A)" 1 1 0] by (cases "Check (int (asize A)) (int (asize A)) 1 1 0") auto
  then show ?thesis by (simp add: array1_at_def n)
qed

lemma array2_flat_in:
  assumes "wf_array A" "i < asize A"
  shows "array2_flat A (s32 (int i)) = Inr (v A ! i)"
proof -
  have n: "s32 (int (asize A)) = int (asize A)" and i: "s32 (int i) = int i"
    using assms by (simp_all add: wf_array_def s32_nat)
  show ?thesis
    using assms by (simp add: array2_flat_def n i Check_in raw_in wf_array_def)
qed

lemma array2_flat_end:
  assumes "wf_array A"
  shows "array2_flat A (s32 (int (asize A))) = Inl (the (Check (int (asize A)) (int (asize A)) 2 0 0))"
proof -
  have n: "s32 (int (asize A)) = int (asize A)"
    using assms by (simp add: wf_array_def s32_nat)
  obtain e where "Check (int (asize A)) (int (asize A)) 2 0 0 = Some e"
    using Check_None_iff[of "int (asize A)" "int (asize A)" 2 0 0] by (cases "Check (int (asize A)) (int (asize A)) 2 0 0") auto
  then show ?thesis by (simp add: array2_flat_def n)
qed

lemma flat_update_Suc:
  assumes "k < length vb"
  shows "(flat_update f k vb va)[k := f (flat_update f k vb va ! k) (va ! k)] = flat_update f (Suc k) vb va"
proof (rule nth_equalityI)
  show "length ((flat_update f k vb va)[k := f (flat_update f k vb va ! k) (va ! k)])
        = length (flat_update f (Suc k) vb va)"
    by (simp add: flat_update_def)
next
  fix i assume "i < length ((flat_update f k vb va)[k := f (flat_update f k vb va ! k) (va ! k)])"
  then have i: "i < length vb" by (simp add: flat_update_def)
  show "(flat_update f k vb va)[k := f (flat_update f k vb va ! k) (va ! k)] ! i
        = flat_update f (Suc k) vb va ! i"
  proof (cases "i = k")
    case True
    then show ?thesis using assms by (simp add: flat_update_def)
  next
    case False
    then show ?thesis using i by (auto simp: flat_update_def)
  qed
qed

lemma compound_fold:
  assumes "\<And>i. i < m \<Longrightarrow> atA (s32 (int i)) = Inr (va ! i)" "k \<le> m" "k \<le> length vb"
  shows "fold (compound_step f atA) [0..<k] (None, vb) = (None, flat_update f k vb va)"
  using assms(2,3)
proof (induction k)
  case 0
  then show ?case by (simp add: flat_update_def map_nth)
next
  case (Suc k)
  then have k: "k < m" "k < length vb" by simp_all
  have l: "length (flat_update f k vb va) = length vb" by (simp add: flat_update_def)
  show ?case
    using Suc k assms(1)[OF k(1)] flat_update_Suc[OF k(2), of f va]
    by (simp add: compound_step_def l)
qed

lemma compound_fold_fault:
  assumes "\<And>i. i < m \<Longrightarrow> atA (s32 (int i)) = Inr (va ! i)" "atA (s32 (int m)) = Inl e"
    and "m < k" "m \<le> length vb"
  shows "fold (compound_step f atA) [0..<k] (None, vb) = (Some e, flat_update f m vb va)"
  using assms(3)
proof (induction k)
  case 0
  then show ?case by simp
next
  case (Suc k)
  show ?case
  proof (cases "m = k")
    case True
    have "fold (compound_step f atA) [0..<Suc k] (None, vb)
          = compound_step f atA m (fold (compound_step f atA) [0..<m] (None, vb))"
      using True by simp
    also have "\<dots> = compound_step f atA m (None, flat_update f m vb va)"
      using compound_fold[OF assms(1) _ assms(4), where f = f] by simp
    also have "\<dots> = (Some e, flat_update f m vb va)"
      using assms(2) by (simp add: compound_step_def)
    finally show ?thesis .
  next
    case False
    then have "m < k" using Suc.prems by simp
    then show ?thesis using Suc.IH by (simp add: compound_step_def)
  qed
qed

lemma compound_eq:
  assumes "\<And>i. i < asize A \<Longrightarrow> atA (s32 (int i)) = Inr (v A ! i)" "atA (s32 (int (asize A))) = Inl e"
    and "length (v B) = asize B" "CheckSize B = None"
  shows "compound f B atA =
         (if asize B \<le> asize A then (None, flat_update f (asize B) (v B) (v A))
          else (Some e, flat_update f (asize A) (v B) (v A)))"
proof (cases "asize B \<le> asize A")
  case True
  then show ?thesis
    using compound_fold[OF assms(1), where k = "asize B" and vb = "v B" and f = f] assms(3,4)
    by (simp add: compound_def)
next
  case False
  then show ?thesis
    using compound_fold_fault[OF assms(1,2), where k = "asize B" and vb = "v B" and f = f] assms(3,4)
    by (simp add: compound_def)
qed

text \<open>
  Claim C7, as amended. The operations \<^verbatim>\<open>+=\<close>, \<^verbatim>\<open>-=\<close> and \<^verbatim>\<open>*=\<close> between two arrays compare
  no shapes. With the checks active, and a left operand that passes the size check: when
  the right operand has at least as many elements as the left one, the operation is
  carried out on all flat elements of the left operand and no fault is reported, whatever
  the two shapes are; when it has fewer, the elements below its size are updated and the
  operation then stops with the bounds fault of the flat index equal to that size.
\<close>

theorem compound_ignores_shape:
  fixes B :: "('a::{plus,minus,times}, 'b) array2_scheme" and A :: "('a, 'c) array2_scheme"
  assumes "wf_array B" and "wf_array A" and "CheckSize B = None"
  shows "(asize B \<le> asize A \<longrightarrow>
            array2_add_assign B A = (None, flat_update (+) (asize B) (v B) (v A)) \<and>
            array2_sub_assign B A = (None, flat_update (-) (asize B) (v B) (v A)) \<and>
            array1_add_assign B A = (None, flat_update (+) (asize B) (v B) (v A)) \<and>
            array1_sub_assign B A = (None, flat_update (-) (asize B) (v B) (v A)) \<and>
            array1_mul_assign B A = (None, flat_update (*) (asize B) (v B) (v A))) \<and>
         (asize A < asize B \<longrightarrow>
            array2_add_assign B A = (Check (int (asize A)) (int (asize A)) 2 0 0,
                                     flat_update (+) (asize A) (v B) (v A)) \<and>
            array2_sub_assign B A = (Check (int (asize A)) (int (asize A)) 2 0 0,
                                     flat_update (-) (asize A) (v B) (v A)) \<and>
            array1_add_assign B A = (Check (int (asize A)) (int (asize A)) 1 1 0,
                                     flat_update (+) (asize A) (v B) (v A)) \<and>
            array1_sub_assign B A = (Check (int (asize A)) (int (asize A)) 1 1 0,
                                     flat_update (-) (asize A) (v B) (v A)) \<and>
            array1_mul_assign B A = (Check (int (asize A)) (int (asize A)) 1 1 0,
                                     flat_update (*) (asize A) (v B) (v A)))"
proof -
  have len: "length (v B) = asize B" using assms(1) by (simp add: wf_array_def)
  have c1: "Check (int (asize A)) (int (asize A)) 1 1 0 = Some (the (Check (int (asize A)) (int (asize A)) 1 1 0))"
    using Check_None_iff[of "int (asize A)" "int (asize A)" 1 1 0] by (cases "Check (int (asize A)) (int (asize A)) 1 1 0") auto
  have c2: "Check (int (asize A)) (int (asize A)) 2 0 0 = Some (the (Check (int (asize A)) (int (asize A)) 2 0 0))"
    using Check_None_iff[of "int (asize A)" "int (asize A)" 2 0 0] by (cases "Check (int (asize A)) (int (asize A)) 2 0 0") auto
  note e1 = compound_eq[OF array1_at_in[OF assms(2)] array1_at_end[OF assms(2)] len assms(3)]
  note e2 = compound_eq[OF array2_flat_in[OF assms(2)] array2_flat_end[OF assms(2)] len assms(3)]
  have r1: "compound f B (array1_at A) =
         (if asize B \<le> asize A then (None, flat_update f (asize B) (v B) (v A))
          else (Check (int (asize A)) (int (asize A)) 1 1 0, flat_update f (asize A) (v B) (v A)))" for f
    using e1[of f] c1 by simp
  have r2: "compound f B (array2_flat A) =
         (if asize B \<le> asize A then (None, flat_update f (asize B) (v B) (v A))
          else (Check (int (asize A)) (int (asize A)) 2 0 0, flat_update f (asize A) (v B) (v A)))" for f
    using e2[of f] c2 by simp
  show ?thesis
    by (simp add: array2_add_assign_def array2_sub_assign_def array1_add_assign_def
      array1_sub_assign_def array1_mul_assign_def r1 r2)
qed

theorem compound_ignores_shape_witness:
  "wf_array \<lparr>v = [1, 2 :: int], asize = 2, state = 1, nx = 1, ny = 2\<rparr> \<and>
   wf_array \<lparr>v = [10, 20 :: int], asize = 2, state = 1, nx = 2, ny = 1\<rparr> \<and>
   CheckSize \<lparr>v = [1, 2 :: int], asize = 2, state = 1, nx = 1, ny = 2\<rparr> = None \<and>
   array2_sub_assign \<lparr>v = [1, 2 :: int], asize = 2, state = 1, nx = 1, ny = 2\<rparr>
                     \<lparr>v = [10, 20], asize = 2, state = 1, nx = 2, ny = 1\<rparr> = (None, [- 9, - 18]) \<and>
   wf_array \<lparr>v = [10 :: int], asize = 1, state = 1, nx = 1, ny = 1\<rparr> \<and>
   array2_sub_assign \<lparr>v = [1, 2 :: int], asize = 2, state = 1, nx = 1, ny = 2\<rparr>
                     \<lparr>v = [10], asize = 1, state = 1, nx = 1, ny = 1\<rparr>
     = (Some (Thrown ''ERROR: Array2 index is out of bounds (1 > 0).''), [- 9, 2])"
proof -
  let ?B = "\<lparr>v = [1, 2 :: int], asize = 2, state = 1, nx = 1 :: nat, ny = 2 :: nat\<rparr>"
  let ?A = "\<lparr>v = [10, 20 :: int], asize = 2, state = 1, nx = 2 :: nat, ny = 1 :: nat\<rparr>"
  let ?C = "\<lparr>v = [10 :: int], asize = 1, state = 1, nx = 1 :: nat, ny = 1 :: nat\<rparr>"
  have wf: "wf_array ?B" "wf_array ?A" "wf_array ?C" by (simp_all add: wf_array_def)
  have cs: "CheckSize ?B = None" by (simp add: CheckSize_def test_def)
  have 1: "array2_sub_assign ?B ?A = (None, [- 9, - 18])"
    using compound_ignores_shape[OF wf(1,2) cs] by (simp add: flat_update_def upt_2_3)
  have 2: "array2_sub_assign ?B ?C = (Some (Thrown ''ERROR: Array2 index is out of bounds (1 > 0).''), [- 9, 2])"
    using compound_ignores_shape[OF wf(1,3) cs]
    by (simp add: flat_update_def upt_2_3 Check_def ArrayExit_def show_int_def show_nat.simps)
  from wf cs 1 2 show ?thesis by simp
qed

text \<open>
  A 1 x 2 array and a 2 x 1 array, and one-dimensional arrays of 2 and of 3 elements: the
  shapes differ, no fault is reported and the operation is carried out.
\<close>

theorem compound_shape_counterexample:
  "nx \<lparr>v = [1, 2 :: int], asize = 2, state = 1, nx = 1, ny = 2\<rparr>
     \<noteq> nx \<lparr>v = [10, 20 :: int], asize = 2, state = 1, nx = 2, ny = 1\<rparr> \<and>
   array2_add_assign \<lparr>v = [1, 2 :: int], asize = 2, state = 1, nx = 1, ny = 2\<rparr>
                     \<lparr>v = [10, 20], asize = 2, state = 1, nx = 2, ny = 1\<rparr> = (None, [11, 22]) \<and>
   asize \<lparr>v = [1, 2 :: int], asize = 2, state = 1\<rparr>
     \<noteq> asize \<lparr>v = [10, 20, 30 :: int], asize = 3, state = 1\<rparr> \<and>
   array1_mul_assign \<lparr>v = [1, 2 :: int], asize = 2, state = 1\<rparr>
                     \<lparr>v = [10, 20, 30], asize = 3, state = 1\<rparr> = (None, [10, 40])"
  by (simp add: array2_add_assign_def array1_mul_assign_def compound_def CheckSize_def test_def
      compound_step_def array2_flat_def array1_at_def Check_def s32_def raw_def upt_2_3)

section \<open>The bounds check of the element access\<close>

lemma sublist_mid: "sublist x (a @ x @ b)"
  by (rule sublist_appendI)

lemma sublist_in:
  assumes "msg = a @ x @ b"
  shows "sublist x msg"
  unfolding assms by (rule sublist_appendI)

lemma Check_names:
  assumes "i < 0 \<or> int n \<le> i"
  shows "names_fault (case Check i (int n) dm m lo of Some f \<Rightarrow> Inl f | None \<Rightarrow> r) dm m (i + lo) lo n"
proof -
  let ?tail = "(if int n = 0 then '' index given to empty array''
                 else if i < 0 then '' < '' @ show_int lo
                 else '' > '' @ show_int (int n + lo - 1)) @ '')''"
  let ?msg = "''ERROR: '' @ (''Array'' @ show_nat dm @ '' index ''
              @ (if m \<noteq> 0 then show_nat m @ '' '' else '''')
              @ ''is out of bounds ('' @ show_int (i + lo) @ ?tail) @ ''.''"
  have c: "Check i (int n) dm m lo = Some (Thrown ?msg)"
    using assms by (simp add: Check_def ArrayExit_def)
  have 1: "sublist (''Array'' @ show_nat dm) ?msg"
    by (rule sublist_in[where a = "''ERROR: ''"]) simp
  have 2: "sublist (''index '' @ show_nat m) ?msg" if "m \<noteq> 0"
    by (rule sublist_in[where a = "''ERROR: Array'' @ show_nat dm @ '' ''"]) (use that in simp)
  have 3: "sublist (''out of bounds ('' @ show_int (i + lo)) ?msg"
    by (rule sublist_in[where a = "''ERROR: Array'' @ show_nat dm @ '' index ''
              @ (if m \<noteq> 0 then show_nat m @ '' '' else '''') @ ''is ''"]) simp
  have 4: "sublist ''empty array'' ?msg" if "n = 0"
    by (rule sublist_in[where b = "'').''" and a = "''ERROR: Array'' @ show_nat dm @ '' index ''
              @ (if m \<noteq> 0 then show_nat m @ '' '' else '''') @ ''is out of bounds ('' @ show_int (i + lo)
              @ '' index given to ''"])
       (use that in simp)
  have 5: "sublist (''< '' @ show_int lo @ '')'') ?msg" if "n \<noteq> 0" "i + lo < lo"
    by (rule sublist_in[where b = "''.''" and a = "''ERROR: Array'' @ show_nat dm @ '' index ''
              @ (if m \<noteq> 0 then show_nat m @ '' '' else '''') @ ''is out of bounds ('' @ show_int (i + lo)
              @ '' ''"])
       (use that in simp)
  have 6: "sublist (''> '' @ show_int (lo + int n - 1) @ '')'') ?msg" if "n \<noteq> 0" "\<not> i + lo < lo"
    by (rule sublist_in[where b = "''.''" and a = "''ERROR: Array'' @ show_nat dm @ '' index ''
              @ (if m \<noteq> 0 then show_nat m @ '' '' else '''') @ ''is out of bounds ('' @ show_int (i + lo)
              @ '' ''"])
       (use that in \<open>simp add: add.commute\<close>)
  show ?thesis
    unfolding c names_fault_def using 1 2 3 4 5 6 by (simp only: option.case sum.case fault.case) simp
qed


lemma array1_at_names:
  assumes "asize A < 2 ^ 31" "ix < 0 \<or> int (asize A) \<le> ix"
  shows "names_fault (array1_at A ix) 1 1 ix 0 (asize A)"
  using Check_names[OF assms(2), where dm = 1 and m = 1 and lo = 0] assms(1) by (simp add: array1_at_def s32_nat)

lemma array2_flat_names:
  assumes "asize A < 2 ^ 31" "ix < 0 \<or> int (asize A) \<le> ix"
  shows "names_fault (array2_flat A ix) 2 0 ix 0 (asize A)"
  using Check_names[OF assms(2), where dm = 2 and m = 0 and lo = 0] assms(1) by (simp add: array2_flat_def s32_nat)

lemma array2_at_names1:
  assumes "nx A < 2 ^ 31" "ix < 0 \<or> int (nx A) \<le> ix"
  shows "names_fault (array2_at A ix iy) 2 1 ix 0 (nx A)"
  using Check_names[OF assms(2), where dm = 2 and m = 1 and lo = 0] assms(1) by (simp add: array2_at_def s32_nat)

lemma array2_at_names2:
  assumes "nx A < 2 ^ 31" "ny A < 2 ^ 31" "0 \<le> ix" "ix < int (nx A)" "iy < 0 \<or> int (ny A) \<le> iy"
  shows "names_fault (array2_at A ix iy) 2 2 iy 0 (ny A)"
  using Check_names[OF assms(5), where dm = 2 and m = 2 and lo = 0] assms(1-4)
  by (simp add: array2_at_def s32_nat Check_in)

lemma Array1_at_names:
  assumes "asize A < 2 ^ 31" "int32 (ox A)" "int32 (ix - ox A)"
    and "ix < ox A \<or> ox A + int (asize A) \<le> ix"
  shows "names_fault (Array1_at A ix) 1 1 ix (ox A) (asize A)"
proof -
  have s: "s32 (ox A) = ox A" "s32 (ix - ox A) = ix - ox A"
    using assms(2,3) by (simp_all add: int32_def s32_id)
  have "ix - ox A < 0 \<or> int (asize A) \<le> ix - ox A" using assms(4) by linarith
  from Check_names[OF this, where dm = 1 and m = 1 and lo = "ox A"] show ?thesis
    using assms(1) by (simp add: Array1_at_def Array1_check_def s32_nat s)
qed

lemma s32_range: "- (2 ^ 31) \<le> s32 z" "s32 z < 2 ^ 31"
  by (simp_all add: s32_def)

lemma wrap_high:
  fixes a m :: int
  assumes "m \<le> a" "a < 2 * m"
  shows "a mod m = a - m"
proof -
  have "a mod m = (a - m) mod m" by simp
  also have "\<dots> = a - m" using assms by (intro mod_pos_pos_trivial) simp_all
  finally show ?thesis .
qed

lemma wrap_low:
  fixes a m :: int
  assumes "- m \<le> a" "a < 0"
  shows "a mod m = a + m"
proof -
  have "a mod m = (a + m) mod m" by simp
  also have "\<dots> = a + m" using assms by (intro mod_pos_pos_trivial) simp_all
  finally show ?thesis .
qed

lemma s32_high:
  assumes "2 ^ 31 \<le> z" "z < 2 ^ 32"
  shows "s32 z = z - 2 ^ 32"
  unfolding s32_def using assms by (subst wrap_high) simp_all

lemma s32_low:
  assumes "- (2 ^ 32) < z" "z < - (2 ^ 31)"
  shows "s32 z = z + 2 ^ 32"
  unfolding s32_def using assms by (subst wrap_low) simp_all

lemma Array1_at_faults:
  assumes "asize A < 2 ^ 31" "int32 (ox A)" "ox A + int (asize A) \<le> 2 ^ 31" "int32 ix"
    and "ix < ox A \<or> ox A + int (asize A) \<le> ix"
  shows "isl (Array1_at A ix)"
proof -
  let ?d = "ix - ox A"
  have r: "- (2 ^ 32) < ?d" "?d < 2 ^ 32" using assms(2,4) by (simp_all add: int32_def)
  have "s32 ?d < 0 \<or> int (asize A) \<le> s32 ?d"
  proof (cases "?d < - (2 ^ 31)")
    case True
    then have "s32 ?d = ?d + 2 ^ 32" using r by (intro s32_low) simp_all
    moreover have "int (asize A) \<le> ?d + 2 ^ 32" using assms(3,4) by (simp add: int32_def)
    ultimately show ?thesis by simp
  next
    case False
    show ?thesis
    proof (cases "?d < 2 ^ 31")
      case True
      then have "s32 ?d = ?d" using False by (intro s32_id) simp_all
      then show ?thesis using assms(5) by auto
    next
      case False
      then have "s32 ?d = ?d - 2 ^ 32" using r by (intro s32_high) simp_all
      then show ?thesis using r by simp
    qed
  qed
  then obtain f where "Check (s32 ?d) (int (asize A)) 1 1 (s32 (ox A)) = Some f"
    using Check_None_iff[of "s32 ?d" "int (asize A)" 1 1 "s32 (ox A)"]
    by (cases "Check (s32 ?d) (int (asize A)) 1 1 (s32 (ox A))") auto
  then show ?thesis using assms(1) by (simp add: Array1_at_def Array1_check_def s32_nat)
qed

text \<open>
  Claim C8. With the checks active, an access with an index outside the declared bound of
  its dimension (\<open>[0, n)\<close>, or \<open>[ox, ox + n)\<close> for the offset variant) returns no element:
  it throws a report that names the dimension of the array, the number of the index, the
  value that was given and the bound that it violates (for an empty array: that the array
  is empty; the flat access of a two-dimensional array has no index number to name). The
  sizes, the offset and the indices are values of an \<^verbatim>\<open>int\<close>. For the offset variant the
  fault is thrown for every such index, and the report has this content when the
  difference of index and offset is a value of an \<^verbatim>\<open>int\<close>.
\<close>

theorem bounds_fault:
  fixes A :: "('a, 'b) array1_scheme" and M :: "('a, 'c) array2_scheme"
    and F :: "('a, 'd) Array1_scheme"
  assumes "asize A < 2 ^ 31" and "nx M < 2 ^ 31" and "ny M < 2 ^ 31" and "asize M < 2 ^ 31"
    and "asize F < 2 ^ 31" and "int32 (ox F)" and "ox F + int (asize F) \<le> 2 ^ 31"
    and "int32 ix" and "int32 iy"
  shows "(ix < 0 \<or> int (asize A) \<le> ix \<longrightarrow> names_fault (array1_at A ix) 1 1 ix 0 (asize A)) \<and>
         (ix < 0 \<or> int (nx M) \<le> ix \<longrightarrow> names_fault (array2_at M ix iy) 2 1 ix 0 (nx M)) \<and>
         (0 \<le> ix \<and> ix < int (nx M) \<and> (iy < 0 \<or> int (ny M) \<le> iy) \<longrightarrow>
            names_fault (array2_at M ix iy) 2 2 iy 0 (ny M)) \<and>
         (ix < 0 \<or> int (asize M) \<le> ix \<longrightarrow> names_fault (array2_flat M ix) 2 0 ix 0 (asize M)) \<and>
         (ix < ox F \<or> ox F + int (asize F) \<le> ix \<longrightarrow>
            isl (Array1_at F ix) \<and>
            (int32 (ix - ox F) \<longrightarrow> names_fault (Array1_at F ix) 1 1 ix (ox F) (asize F)))"
  using array1_at_names[OF assms(1)] array2_at_names1[OF assms(2)]
    array2_at_names2[OF assms(2,3)] array2_flat_names[OF assms(4)]
    Array1_at_names[OF assms(5,6)] Array1_at_faults[OF assms(5,6,7,8)]
  by blast

theorem bounds_fault_witness:
  "int32 3 \<and> int32 5 \<and> int32 (- 1) \<and> - 1 + int 3 \<le> (2 :: int) ^ 31 \<and>
   names_fault (array1_at \<lparr>v = [1, 2, 3 :: int], asize = 3, state = 1\<rparr> 3) 1 1 3 0 3 \<and>
   array1_at \<lparr>v = [1, 2, 3 :: int], asize = 3, state = 1\<rparr> 3
     = Inl (Thrown ''ERROR: Array1 index 1 is out of bounds (3 > 2).'') \<and>
   names_fault (array2_at \<lparr>v = [1, 2, 3, 4, 5, 6 :: int], asize = 6, state = 1, nx = 3, ny = 2\<rparr> 3 5) 2 1 3 0 3 \<and>
   array2_at \<lparr>v = [1, 2, 3, 4, 5, 6 :: int], asize = 6, state = 1, nx = 3, ny = 2\<rparr> 3 5
     = Inl (Thrown ''ERROR: Array2 index 1 is out of bounds (3 > 2).'') \<and>
   names_fault (Array1_at \<lparr>v = [1, 2, 3 :: int], asize = 3, state = 1, ox = - 1\<rparr> 3) 1 1 3 (- 1) 3 \<and>
   Array1_at \<lparr>v = [1, 2, 3 :: int], asize = 3, state = 1, ox = - 1\<rparr> 3
     = Inl (Thrown ''ERROR: Array1 index 1 is out of bounds (3 > 1).'')"
proof -
  let ?A = "\<lparr>v = [1, 2, 3 :: int], asize = 3, state = 1\<rparr>"
  let ?M = "\<lparr>v = [1, 2, 3, 4, 5, 6 :: int], asize = 6, state = 1, nx = 3 :: nat, ny = 2 :: nat\<rparr>"
  let ?F = "\<lparr>v = [1, 2, 3 :: int], asize = 3, state = 1, ox = - 1 :: int\<rparr>"
  have i: "int32 3" "int32 5" "int32 (- 1)" "int32 (3 - (- 1))" by (simp_all add: int32_def)
  have b: "(ix < 0 \<or> int (asize ?A) \<le> ix \<longrightarrow> names_fault (array1_at ?A ix) 1 1 ix 0 (asize ?A)) \<and>
         (ix < 0 \<or> int (nx ?M) \<le> ix \<longrightarrow> names_fault (array2_at ?M ix iy) 2 1 ix 0 (nx ?M)) \<and>
         (0 \<le> ix \<and> ix < int (nx ?M) \<and> (iy < 0 \<or> int (ny ?M) \<le> iy) \<longrightarrow>
            names_fault (array2_at ?M ix iy) 2 2 iy 0 (ny ?M)) \<and>
         (ix < 0 \<or> int (asize ?M) \<le> ix \<longrightarrow> names_fault (array2_flat ?M ix) 2 0 ix 0 (asize ?M)) \<and>
         (ix < ox ?F \<or> ox ?F + int (asize ?F) \<le> ix \<longrightarrow>
            isl (Array1_at ?F ix) \<and>
            (int32 (ix - ox ?F) \<longrightarrow> names_fault (Array1_at ?F ix) 1 1 ix (ox ?F) (asize ?F)))"
    if "int32 ix" "int32 iy" for ix iy
    by (rule bounds_fault) (use that i in simp_all)
  have n: "names_fault (array1_at ?A 3) 1 1 3 0 3" "names_fault (array2_at ?M 3 5) 2 1 3 0 3"
    "names_fault (Array1_at ?F 3) 1 1 3 (- 1) 3"
    using b[OF i(1,2)] i(4) by simp_all
  have e: "array1_at ?A 3 = Inl (Thrown ''ERROR: Array1 index 1 is out of bounds (3 > 2).'')"
    "array2_at ?M 3 5 = Inl (Thrown ''ERROR: Array2 index 1 is out of bounds (3 > 2).'')"
    "Array1_at ?F 3 = Inl (Thrown ''ERROR: Array1 index 1 is out of bounds (3 > 1).'')"
    by (simp_all add: array1_at_def array2_at_def Array1_at_def Array1_check_def Check_def
        ArrayExit_def s32_def show_int_def show_nat.simps)
  from i n e show ?thesis by simp
qed

end
